theory Spec2Isabelle
  imports Main "HOL-Library.Multiset"
begin

section \<open>Data model\<close>

text \<open>
  The repository holds two variants of one self-sorting on-screen keyboard:
  \<^verbatim>\<open>autosort.js\<close> (three rows, reflow by row count) and a second file (four rows with a
  space bar, reflow by row width). The classes \<^verbatim>\<open>Key\<close>, \<^verbatim>\<open>KeyboardRow\<close> and
  \<^verbatim>\<open>Keyboard\<close> and the methods \<^verbatim>\<open>getKey\<close>, \<^verbatim>\<open>getKeyPos\<close> and \<^verbatim>\<open>moveKey\<close> are
  the same text in both files; the constructor constants and \<^verbatim>\<open>sortKeys\<close> differ and
  carry the suffixes \<open>_autosort\<close> and \<open>_part000\<close> below.

  What is modelled is the \<^verbatim>\<open>keyRows\<close> array of the keyboard object and the \<^verbatim>\<open>keys\<close>
  arrays of its rows. The DOM (row elements, key elements, bounding boxes, animations)
  is not modelled: every edit of a \<^verbatim>\<open>keys\<close> array in \<^verbatim>\<open>moveKey\<close> is paired with the
  same edit of the row element's children, and nothing in the modelled methods reads
  the DOM back except the \<^verbatim>\<open>console.assert\<close> of \<^verbatim>\<open>moveKey\<close>, which only logs. The
  calls of \<^verbatim>\<open>getFlexItemsInfo\<close> and \<^verbatim>\<open>animateFlexItems\<close> in \<^verbatim>\<open>sortKeys\<close> read and
  animate DOM elements and leave \<^verbatim>\<open>keyRows\<close> alone; they are left out. Row and column
  numbers are integers.

  A method that mutates the keyboard is a function from the \<^verbatim>\<open>keyRows\<close> before the call
  to a completion: \<open>Normal s\<close> when the call returns with the rows \<open>s\<close>, \<open>Throw e s\<close>
  when it throws \<open>e\<close> and leaves the rows \<open>s\<close> behind.
\<close>

datatype error = TypeError

datatype 's completion = Normal 's | Throw error 's

fun stateOf :: "'s completion \<Rightarrow> 's" where
  "stateOf (Normal s) = s"
| "stateOf (Throw e s) = s"

text \<open>
  A \<^verbatim>\<open>Key\<close> object. Keys are compared with \<^verbatim>\<open>===\<close>, that is by reference; \<open>keyId\<close>
  stands for the reference (the number of the key in allocation order), so that two
  key objects with equal label and width remain different keys. The fields are never
  assigned after the constructor.
\<close>

record Key =
  keyId :: nat
  displayStr :: string
  width :: int

text \<open>
  \<^verbatim>\<open>KeyboardRow\<close> of \<^verbatim>\<open>autosort.js\<close> has the field \<^verbatim>\<open>keys\<close> (and the row element);
  the second file adds \<^verbatim>\<open>defaultRowWidth\<close>. The shared methods are written over the
  record scheme and so apply to both.
\<close>

record KeyboardRow =
  keys :: "Key list"

record KeyboardRowW = KeyboardRow +
  defaultRowWidth :: int

section \<open>JavaScript array primitives\<close>

text \<open>
  \<^verbatim>\<open>arr[i]\<close> for an integer \<open>i\<close>: the element, or \<^verbatim>\<open>undefined\<close> (\<open>None\<close>) outside
  \<open>0 \<le> i < length\<close>.
\<close>

definition arrAt :: "'a list \<Rightarrow> int \<Rightarrow> 'a option" where
  "arrAt xs i = (if 0 \<le> i \<and> i < int (length xs) then Some (xs ! nat i) else None)"

text \<open>
  The start index of \<^verbatim>\<open>Array.prototype.splice\<close>: a negative start counts from the
  end, and the result is clamped to \<open>0 .. length\<close>.
\<close>

definition spliceStart :: "int \<Rightarrow> nat \<Rightarrow> nat" where
  "spliceStart start len =
     (if start < 0 then nat (max (int len + start) 0) else min (nat start) len)"

text \<open>\<^verbatim>\<open>arr.splice(start, 1)\<close>: removes one element at the start index, if there is one.\<close>

definition spliceRemove1 :: "int \<Rightarrow> 'a list \<Rightarrow> 'a list" where
  "spliceRemove1 start xs =
     (let s = spliceStart start (length xs) in take s xs @ drop (Suc s) xs)"

text \<open>\<^verbatim>\<open>arr.splice(start, 0, x)\<close>: inserts \<open>x\<close> before the start index.\<close>

definition spliceInsert :: "int \<Rightarrow> 'a \<Rightarrow> 'a list \<Rightarrow> 'a list" where
  "spliceInsert start x xs =
     (let s = spliceStart start (length xs) in take s xs @ x # drop s xs)"

text \<open>
  \<^verbatim>\<open>arr.findIndex(p)\<close>: the index of the first element satisfying \<open>p\<close>, or \<open>-1\<close>.
\<close>

fun findIndex :: "('a \<Rightarrow> bool) \<Rightarrow> 'a list \<Rightarrow> int" where
  "findIndex p [] = - 1"
| "findIndex p (x # xs) =
     (if p x then 0 else (let i = findIndex p xs in if i = - 1 then - 1 else i + 1))"

section \<open>Rows and keys\<close>

definition KEY_WIDTH :: int where
  "KEY_WIDTH = 50"

text \<open>
  The \<^verbatim>\<open>Key\<close> constructor: \<^verbatim>\<open>this.width = width || KEY_WIDTH\<close>, so an absent width and
  the width \<open>0\<close> both give the default width.
\<close>

definition newKey :: "nat \<Rightarrow> string \<Rightarrow> int option \<Rightarrow> Key" where
  "newKey ident label w =
     \<lparr>keyId = ident, displayStr = label,
      width = (case w of None \<Rightarrow> KEY_WIDTH | Some v \<Rightarrow> if v = 0 then KEY_WIDTH else v)\<rparr>"

text \<open>\<^verbatim>\<open>rowStr.split("").map(char => new Key(...))\<close>, allocating keys from \<open>n\<close> on.\<close>

fun newKeys :: "nat \<Rightarrow> string \<Rightarrow> Key list" where
  "newKeys n [] = []"
| "newKeys n (c # cs) = newKey n [c] None # newKeys (Suc n) cs"

text \<open>\<^verbatim>\<open>KeyboardRow.rowWidth\<close>: \<^verbatim>\<open>this.keys.reduce((prev, cur) => prev + cur.width, 0)\<close>.\<close>

definition rowWidth :: "'a KeyboardRow_scheme \<Rightarrow> int" where
  "rowWidth r = foldl (\<lambda>prev cur. prev + width cur) 0 (keys r)"

text \<open>The \<^verbatim>\<open>KeyboardRow\<close> constructors of the two files.\<close>

definition KeyboardRow_autosort :: "Key list \<Rightarrow> KeyboardRow" where
  "KeyboardRow_autosort ks = \<lparr>keys = ks\<rparr>"

definition KeyboardRow_part000 :: "Key list \<Rightarrow> KeyboardRowW" where
  "KeyboardRow_part000 ks =
     \<lparr>keys = ks, defaultRowWidth = rowWidth \<lparr>keys = ks\<rparr>\<rparr>"

text \<open>\<^verbatim>\<open>KeyboardRow.addDefaultKey\<close>: push the key, then recompute the default width.\<close>

definition addDefaultKey :: "Key \<Rightarrow> KeyboardRowW \<Rightarrow> KeyboardRowW" where
  "addDefaultKey key r =
     (let r1 = r\<lparr>keys := keys r @ [key]\<rparr> in r1\<lparr>defaultRowWidth := rowWidth r1\<rparr>)"

text \<open>All keys of the keyboard in reading order (rows top to bottom, columns left to right).\<close>

definition allKeys :: "'a KeyboardRow_scheme list \<Rightarrow> Key list" where
  "allKeys kb = concat (map keys kb)"

section \<open>The keyboards built by the two constructors\<close>

text \<open>
  Labels outside ASCII are written as their UTF-8 bytes: the backspace label U+2190,
  the enter label U+21B5 and the space bar label U+2015.
\<close>

definition backspaceLabel :: string where
  "backspaceLabel = [CHR 0xE2, CHR 0x86, CHR 0x90]"

definition enterLabel :: string where
  "enterLabel = [CHR 0xE2, CHR 0x86, CHR 0xB5]"

definition spacebarLabel :: string where
  "spacebarLabel = [CHR 0xE2, CHR 0x80, CHR 0x95]"

definition DEFAULT_LAYOUT_autosort :: "string list" where
  "DEFAULT_LAYOUT_autosort = [''qwertyuiop'', ''asdfghjkl'', ''zxcvbnm'']"

definition DEFAULT_LAYOUT_part000 :: "string list" where
  "DEFAULT_LAYOUT_part000 = [''qwertyuiop'', ''asdfghjkl'', ''zxcvbnm'', '''']"

definition BACKSPACE_WIDTH_autosort :: int where
  "BACKSPACE_WIDTH_autosort = 80"

definition ENTER_WIDTH_autosort :: int where
  "ENTER_WIDTH_autosort = 60"

definition BACKSPACE_WIDTH_part000 :: int where
  "BACKSPACE_WIDTH_part000 = 100"

definition ENTER_WIDTH_part000 :: int where
  "ENTER_WIDTH_part000 = 100"

definition SPACEBAR_WIDTH :: int where
  "SPACEBAR_WIDTH = 200"

text \<open>
  \<^verbatim>\<open>DEFAULT_LAYOUT.map(rowStr => ...)\<close>: the letter keys of every row, allocated in
  order from \<open>n\<close> on.
\<close>

fun letterRows :: "nat \<Rightarrow> string list \<Rightarrow> Key list list" where
  "letterRows n [] = []"
| "letterRows n (rowStr # rest) = newKeys n rowStr # letterRows (n + length rowStr) rest"

text \<open>
  The constructor of \<^verbatim>\<open>autosort.js\<close>: the letter rows, then the backspace key pushed
  onto row 0 and the enter key pushed onto row 1.
\<close>

definition Keyboard_autosort :: "KeyboardRow list" where
  "Keyboard_autosort =
     (let keyRows = map KeyboardRow_autosort (letterRows 0 DEFAULT_LAYOUT_autosort);
          keyRows = keyRows[0 := (keyRows ! 0)\<lparr>keys := keys (keyRows ! 0) @
                      [newKey 26 backspaceLabel (Some BACKSPACE_WIDTH_autosort)]\<rparr>];
          keyRows = keyRows[1 := (keyRows ! 1)\<lparr>keys := keys (keyRows ! 1) @
                      [newKey 27 enterLabel (Some ENTER_WIDTH_autosort)]\<rparr>]
      in keyRows)"

text \<open>
  The constructor of the second file: the letter rows (each with the default width of
  its letters), then backspace, enter and space bar added with \<^verbatim>\<open>addDefaultKey\<close> to
  rows 0, 1 and 3.
\<close>

definition Keyboard_part000 :: "KeyboardRowW list" where
  "Keyboard_part000 =
     (let keyRows = map KeyboardRow_part000 (letterRows 0 DEFAULT_LAYOUT_part000);
          keyRows = keyRows[0 := addDefaultKey
                      (newKey 26 backspaceLabel (Some BACKSPACE_WIDTH_part000)) (keyRows ! 0)];
          keyRows = keyRows[1 := addDefaultKey
                      (newKey 27 enterLabel (Some ENTER_WIDTH_part000)) (keyRows ! 1)];
          keyRows = keyRows[3 := addDefaultKey
                      (newKey 28 spacebarLabel (Some SPACEBAR_WIDTH)) (keyRows ! 3)]
      in keyRows)"

section \<open>Lookup: getKey and getKeyPos\<close>

text \<open>
  The value returned by \<^verbatim>\<open>getKey\<close>: \<^verbatim>\<open>null\<close>, \<^verbatim>\<open>undefined\<close> or a key.
\<close>

datatype keyResult = JSNull | JSUndefined | JSKey Key

text \<open>
  \<^verbatim>\<open>this.keyRows[row].length\<close>: the bounds check of \<^verbatim>\<open>getKey\<close> reads \<^verbatim>\<open>length\<close> of
  the \<^verbatim>\<open>KeyboardRow\<close> object, not of its \<^verbatim>\<open>keys\<close> array. \<^verbatim>\<open>KeyboardRow\<close> declares
  no such property in either file, so the read gives \<^verbatim>\<open>undefined\<close> (\<open>None\<close>).
\<close>

definition rowLengthProperty :: "'a KeyboardRow_scheme \<Rightarrow> int option" where
  "rowLengthProperty r = None"

text \<open>
  \<^verbatim>\<open>a >= b\<close> for a number \<open>a\<close> and \<open>b\<close> a number or \<^verbatim>\<open>undefined\<close>: \<^verbatim>\<open>undefined\<close>
  converts to NaN and every comparison with NaN is false.
\<close>

fun jsGreaterEq :: "int \<Rightarrow> int option \<Rightarrow> bool" where
  "jsGreaterEq a None = False"
| "jsGreaterEq a (Some b) = (b \<le> a)"

definition getKey :: "int \<Rightarrow> int \<Rightarrow> 'a KeyboardRow_scheme list \<Rightarrow> keyResult" where
  "getKey row col kb =
     (if row < 0 \<or> int (length kb) \<le> row \<or> col < 0 \<or>
         jsGreaterEq col (rowLengthProperty (kb ! nat row))
      then JSNull
      else (case arrAt (keys (kb ! nat row)) col of
              None \<Rightarrow> JSUndefined
            | Some k \<Rightarrow> JSKey k))"

text \<open>
  \<^verbatim>\<open>getKeyPos\<close>: the loop over the rows from \<open>row\<close> on. \<open>None\<close> is the \<^verbatim>\<open>undefined\<close>
  the method returns after logging that the key was not found.
\<close>

function getKeyPos_from :: "nat \<Rightarrow> 'a KeyboardRow_scheme list \<Rightarrow> Key \<Rightarrow> (nat \<times> nat) option" where
  "getKeyPos_from row kb key =
     (if row < length kb then
        (let foundKeyIndex = findIndex (\<lambda>k. k = key) (keys (kb ! row)) in
           if foundKeyIndex \<noteq> - 1 then Some (row, nat foundKeyIndex)
           else getKeyPos_from (row + 1) kb key)
      else None)"
  by pat_completeness auto
termination
  by (relation "measure (\<lambda>(row, kb, key). length kb - row)") auto

definition getKeyPos :: "Key \<Rightarrow> 'a KeyboardRow_scheme list \<Rightarrow> (nat \<times> nat) option" where
  "getKeyPos key kb = getKeyPos_from 0 kb key"

section \<open>moveKey\<close>

text \<open>
  \<^verbatim>\<open>moveKey(key, fromRow, fromCol, toRow, toCol)\<close>. The argument \<open>key\<close> is \<open>None\<close> when
  the caller passes \<^verbatim>\<open>undefined\<close> (the last element of an empty array). In source order:
  \<^verbatim>\<open>this.keyRows[fromRow].rowEl\<close> throws when there is no such row; \<^verbatim>\<open>key.keyEl\<close>
  throws when the key is \<^verbatim>\<open>undefined\<close>; the key at \<open>fromCol\<close> is spliced out of the
  source row; \<^verbatim>\<open>this.keyRows[toRow].rowEl\<close> throws when there is no such row (the
  removal has happened by then); \<open>key\<close> is spliced into the target row at \<open>toCol\<close>.
\<close>

definition moveKey ::
  "Key option \<Rightarrow> int \<Rightarrow> int \<Rightarrow> int \<Rightarrow> int \<Rightarrow> 'a KeyboardRow_scheme list
     \<Rightarrow> 'a KeyboardRow_scheme list completion" where
  "moveKey key fromRow fromCol toRow toCol kb =
     (case arrAt kb fromRow of
        None \<Rightarrow> Throw TypeError kb
      | Some fromKeyRow \<Rightarrow>
          (case key of
             None \<Rightarrow> Throw TypeError kb
           | Some k \<Rightarrow>
               (let kb1 = kb[nat fromRow :=
                             fromKeyRow\<lparr>keys := spliceRemove1 fromCol (keys fromKeyRow)\<rparr>]
                in case arrAt kb1 toRow of
                     None \<Rightarrow> Throw TypeError kb1
                   | Some toKeyRow \<Rightarrow>
                       Normal (kb1[nat toRow :=
                                 toKeyRow\<lparr>keys := spliceInsert toCol k (keys toKeyRow)\<rparr>]))))"

section \<open>sortKeys of autosort.js: reflow by row count\<close>

text \<open>
  The \<^verbatim>\<open>for (let i = 0; i < oldRow; i++)\<close> loop of \<^verbatim>\<open>sortKeys\<close>, from \<open>i\<close> on: the
  last key of row \<open>i\<close> moves to column 0 of row \<open>i + 1\<close>.
\<close>

function shuffleDown ::
  "nat \<Rightarrow> nat \<Rightarrow> 'a KeyboardRow_scheme list \<Rightarrow> 'a KeyboardRow_scheme list completion" where
  "shuffleDown i oldRow kb =
     (if i < oldRow then
        (case arrAt kb (int i) of
           None \<Rightarrow> Throw TypeError kb
         | Some keyRow \<Rightarrow>
             (let keysArr = keys keyRow;
                  key = arrAt keysArr (int (length keysArr) - 1)
              in case moveKey key (int i) (int (length keysArr) - 1) (int i + 1) 0 kb of
                   Throw e s \<Rightarrow> Throw e s
                 | Normal kb' \<Rightarrow> shuffleDown (i + 1) oldRow kb'))
      else Normal kb)"
  by pat_completeness auto
termination
  by (relation "measure (\<lambda>(i, oldRow, kb). oldRow - i)") auto

text \<open>
  \<^verbatim>\<open>sortKeys(pressedKey)\<close>: destructuring the \<^verbatim>\<open>undefined\<close> that \<^verbatim>\<open>getKeyPos\<close>
  returns for an absent key throws a TypeError before anything is changed.
\<close>

definition sortKeys_autosort ::
  "Key \<Rightarrow> 'a KeyboardRow_scheme list \<Rightarrow> 'a KeyboardRow_scheme list completion" where
  "sortKeys_autosort pressedKey kb =
     (case getKeyPos pressedKey kb of
        None \<Rightarrow> Throw TypeError kb
      | Some (oldRow, oldCol) \<Rightarrow>
          (case moveKey (Some pressedKey) (int oldRow) (int oldCol) 0 0 kb of
             Throw e s \<Rightarrow> Throw e s
           | Normal kb1 \<Rightarrow> shuffleDown 0 oldRow kb1))"

text \<open>
  The \<^verbatim>\<open>moveKey\<close> calls that \<^verbatim>\<open>sortKeys\<close> of \<^verbatim>\<open>autosort.js\<close> issues, in order,
  each with its five arguments: the same control flow as \<open>shuffleDown\<close> and
  \<open>sortKeys_autosort\<close>, recording the calls instead of returning the rows.
\<close>

type_synonym moveCall = "Key option \<times> int \<times> int \<times> int \<times> int"

function shuffleDown_calls :: "nat \<Rightarrow> nat \<Rightarrow> 'a KeyboardRow_scheme list \<Rightarrow> moveCall list" where
  "shuffleDown_calls i oldRow kb =
     (if i < oldRow then
        (case arrAt kb (int i) of
           None \<Rightarrow> []
         | Some keyRow \<Rightarrow>
             (let keysArr = keys keyRow;
                  key = arrAt keysArr (int (length keysArr) - 1)
              in (key, int i, int (length keysArr) - 1, int i + 1, 0) #
                 (case moveKey key (int i) (int (length keysArr) - 1) (int i + 1) 0 kb of
                    Throw e s \<Rightarrow> []
                  | Normal kb' \<Rightarrow> shuffleDown_calls (i + 1) oldRow kb')))
      else [])"
  by pat_completeness auto
termination
  by (relation "measure (\<lambda>(i, oldRow, kb). oldRow - i)") auto

definition sortKeys_autosort_calls :: "Key \<Rightarrow> 'a KeyboardRow_scheme list \<Rightarrow> moveCall list" where
  "sortKeys_autosort_calls pressedKey kb =
     (case getKeyPos pressedKey kb of
        None \<Rightarrow> []
      | Some (oldRow, oldCol) \<Rightarrow>
          (Some pressedKey, int oldRow, int oldCol, 0, 0) #
          (case moveKey (Some pressedKey) (int oldRow) (int oldCol) 0 0 kb of
             Throw e s \<Rightarrow> []
           | Normal kb1 \<Rightarrow> shuffleDown_calls 0 oldRow kb1))"

text \<open>Issuing a list of \<^verbatim>\<open>moveKey\<close> calls one after the other, stopping at a throw.\<close>

fun runCalls ::
  "moveCall list \<Rightarrow> 'a KeyboardRow_scheme list \<Rightarrow> 'a KeyboardRow_scheme list completion" where
  "runCalls [] kb = Normal kb"
| "runCalls ((key, fromRow, fromCol, toRow, toCol) # calls) kb =
     (case moveKey key fromRow fromCol toRow toCol kb of
        Throw e s \<Rightarrow> Throw e s
      | Normal kb' \<Rightarrow> runCalls calls kb')"

section \<open>sortKeys of the second file: reflow by row width\<close>

text \<open>
  The inner \<^verbatim>\<open>while (keyRow.rowWidth() > keyRow.defaultRowWidth)\<close> loop for row \<open>i\<close>:
  the last key of the row moves to column 0 of row \<open>i + 1\<close>. On an empty row
  \<^verbatim>\<open>keysArr[keysArr.length - 1]\<close> is \<^verbatim>\<open>undefined\<close> and \<^verbatim>\<open>moveKey\<close> throws. The loop
  ends because every pass that returns leaves one key fewer in row \<open>i\<close>.
\<close>

function shedRow :: "nat \<Rightarrow> KeyboardRowW list \<Rightarrow> KeyboardRowW list completion" where
  "shedRow i kb =
     (case arrAt kb (int i) of
        None \<Rightarrow> Throw TypeError kb
      | Some keyRow \<Rightarrow>
          (if defaultRowWidth keyRow < rowWidth keyRow then
             (let keysArr = keys keyRow;
                  lastKey = arrAt keysArr (int (length keysArr) - 1)
              in case moveKey lastKey (int i) (int (length keysArr) - 1) (int i + 1) 0 kb of
                   Throw e s \<Rightarrow> Throw e s
                 | Normal kb' \<Rightarrow> shedRow i kb')
           else Normal kb))"
  by pat_completeness auto
termination
proof (relation "measure (\<lambda>(i, kb). length (keys (kb ! i)))")
  show "wf (measure (\<lambda>(i, kb). length (keys (kb ! i))))"
    by simp
next
  fix i :: nat and kb kb' :: "KeyboardRowW list" and keyRow keysArr lastKey
  assume row: "arrAt kb (int i) = Some keyRow"
    and ks: "keysArr = keys keyRow"
    and lk: "lastKey = arrAt keysArr (int (length keysArr) - 1)"
    and mv: "moveKey lastKey (int i) (int (length keysArr) - 1) (int i + 1) 0 kb = Normal kb'"
  from row have i: "i < length kb" and r: "keyRow = kb ! i"
    by (auto simp: arrAt_def split: if_splits)
  from mv lk have ne: "keysArr \<noteq> []"
    by (auto simp: moveKey_def arrAt_def row split: if_splits)
  have n: "\<And>m::nat. nat (int m - 1) = m - 1" "\<And>m::nat. nat (int m + 1) = Suc m"
    by arith+
  from mv row ks lk ne i have "keys (kb' ! i) = butlast keysArr"
    by (auto simp: moveKey_def arrAt_def spliceRemove1_def spliceStart_def Let_def
          butlast_conv_take n split: if_splits option.splits)
  with ne ks r show "((i, kb'), (i, kb)) \<in> measure (\<lambda>(i, kb). length (keys (kb ! i)))"
    by (cases keysArr) auto
qed

text \<open>
  The outer \<^verbatim>\<open>for (let i = 0; i < this.keyRows.length - 1; i++)\<close> loop, from \<open>i\<close> on.
\<close>

function reflow :: "nat \<Rightarrow> KeyboardRowW list \<Rightarrow> KeyboardRowW list completion" where
  "reflow i kb =
     (if int i < int (length kb) - 1 then
        (case shedRow i kb of
           Throw e s \<Rightarrow> Throw e s
         | Normal kb' \<Rightarrow> reflow (i + 1) kb')
      else Normal kb)"
  by pat_completeness auto
termination
proof (relation "measure (\<lambda>(i, kb). length kb - i)")
  show "wf (measure (\<lambda>(i, kb). length kb - i))"
    by simp
next
  fix i :: nat and kb kb' :: "KeyboardRowW list"
  assume lt: "int i < int (length kb) - 1" and sh: "shedRow i kb = Normal kb'"
  have mv: "length t' = length t"
    if "moveKey key fromRow fromCol toRow toCol t = Normal t'"
    for key fromRow fromCol toRow toCol and t t' :: "KeyboardRowW list"
    using that by (auto simp: moveKey_def Let_def split: option.splits)
  have "shedRow j t = Normal t' \<Longrightarrow> length t' = length t" for j t t'
  proof (induction j t rule: shedRow.induct)
    case (1 j t)
    show ?case
    proof (cases "arrAt t (int j)")
      case None
      with "1.prems" show ?thesis by simp
    next
      case (Some keyRow)
      show ?thesis
      proof (cases "defaultRowWidth keyRow < rowWidth keyRow")
        case False
        with Some "1.prems" show ?thesis by simp
      next
        case True
        let ?n = "int (length (keys keyRow)) - 1"
        let ?m = "moveKey (arrAt (keys keyRow) ?n) (int j) ?n (int j + 1) 0 t"
        show ?thesis
        proof (cases ?m)
          case (Throw e s)
          with Some True "1.prems" show ?thesis by (simp add: Let_def)
        next
          case (Normal t1)
          with Some True "1.prems" have "shedRow j t1 = Normal t'"
            by (simp add: Let_def)
          with "1.IH" [OF Some True refl refl Normal] have "length t' = length t1" .
          with mv [OF Normal] show ?thesis by simp
        qed
      qed
    qed
  qed
  from this [OF sh] lt show "((i + 1, kb'), (i, kb)) \<in> measure (\<lambda>(i, kb). length kb - i)"
    by auto
qed

definition sortKeys_part000 :: "Key \<Rightarrow> KeyboardRowW list \<Rightarrow> KeyboardRowW list completion" where
  "sortKeys_part000 pressedKey kb =
     (case getKeyPos pressedKey kb of
        None \<Rightarrow> Throw TypeError kb
      | Some (oldRow, oldCol) \<Rightarrow>
          (case moveKey (Some pressedKey) (int oldRow) (int oldCol) 0 0 kb of
             Throw e s \<Rightarrow> Throw e s
           | Normal kb1 \<Rightarrow> reflow 0 kb1))"

text \<open>
  The same \<^verbatim>\<open>while\<close> loop written without a termination argument: \<open>None\<close> stands for
  a loop that never returns.
\<close>

partial_function (option) shedRow_while ::
  "nat \<Rightarrow> KeyboardRowW list \<Rightarrow> KeyboardRowW list completion option" where
  "shedRow_while i kb =
     (case arrAt kb (int i) of
        None \<Rightarrow> Some (Throw TypeError kb)
      | Some keyRow \<Rightarrow>
          (if defaultRowWidth keyRow < rowWidth keyRow then
             (let keysArr = keys keyRow;
                  lastKey = arrAt keysArr (int (length keysArr) - 1)
              in case moveKey lastKey (int i) (int (length keysArr) - 1) (int i + 1) 0 kb of
                   Throw e s \<Rightarrow> Some (Throw e s)
                 | Normal kb' \<Rightarrow> shedRow_while i kb')
           else Some (Normal kb)))"

section \<open>Reachable layouts\<close>

text \<open>
  The layouts a keyboard can be in: the one its constructor builds, and the rows left
  behind by any call of \<^verbatim>\<open>sortKeys\<close> on a reachable layout, whether the call returns
  or throws.
\<close>

inductive reachable_autosort :: "KeyboardRow list \<Rightarrow> bool" where
  init: "reachable_autosort Keyboard_autosort"
| press: "reachable_autosort kb \<Longrightarrow> reachable_autosort (stateOf (sortKeys_autosort key kb))"

inductive reachable_part000 :: "KeyboardRowW list \<Rightarrow> bool" where
  init: "reachable_part000 Keyboard_part000"
| press: "reachable_part000 kb \<Longrightarrow> reachable_part000 (stateOf (sortKeys_part000 key kb))"

section \<open>The two moves of a reflow, on lists\<close>

text \<open>
  \<open>promote r c kb\<close> takes the key at row \<open>r\<close>, column \<open>c\<close> out of its row and puts it
  in front of row 0; \<open>shedLast i kb\<close> takes the last key of row \<open>i\<close> and puts it in
  front of row \<open>i + 1\<close>. They describe the two kinds of \<^verbatim>\<open>moveKey\<close> call that
  \<^verbatim>\<open>sortKeys\<close> makes, without reference to \<^verbatim>\<open>splice\<close>.
\<close>

definition promote :: "nat \<Rightarrow> nat \<Rightarrow> 'a KeyboardRow_scheme list \<Rightarrow> 'a KeyboardRow_scheme list" where
  "promote r c kb =
     (let ks = keys (kb ! r);
          kb1 = kb[r := (kb ! r)\<lparr>keys := take c ks @ drop (Suc c) ks\<rparr>]
      in kb1[0 := (kb1 ! 0)\<lparr>keys := (ks ! c) # keys (kb1 ! 0)\<rparr>])"

definition shedLast :: "nat \<Rightarrow> 'a KeyboardRow_scheme list \<Rightarrow> 'a KeyboardRow_scheme list" where
  "shedLast i kb =
     (let ks = keys (kb ! i);
          kb1 = kb[i := (kb ! i)\<lparr>keys := butlast ks\<rparr>]
      in kb1[Suc i := (kb1 ! Suc i)\<lparr>keys := last ks # keys (kb1 ! Suc i)\<rparr>])"

text \<open>
  The last keys of rows \<open>0 .. i - 1\<close> moved down, one per row, top to bottom. Applied
  to the promoted layout this is the state before pass \<open>i\<close> of the row-count loop.
\<close>

definition shedRowsAbove :: "nat \<Rightarrow> 'a KeyboardRow_scheme list \<Rightarrow> 'a KeyboardRow_scheme list" where
  "shedRowsAbove i kb = fold shedLast [0..<i] kb"

section \<open>Further layouts\<close>

text \<open>
  A keyboard built the way the constructor of the second file builds its own, from the
  layout \<^verbatim>\<open>["a", "b", ""]\<close> with the space bar added to the last row: two rows of
  default width 50 above a row that holds the 200 wide space bar.
\<close>

definition narrowKeyboard :: "KeyboardRowW list" where
  "narrowKeyboard =
     (let keyRows = map KeyboardRow_part000 (letterRows 0 [''a'', ''b'', '''']);
          keyRows = keyRows[2 := addDefaultKey
                      (newKey 2 spacebarLabel (Some SPACEBAR_WIDTH)) (keyRows ! 2)]
      in keyRows)"

text \<open>
  The rows of that keyboard in the middle of a press of the space bar, when the width
  loop of row 0 has shed \<open>a\<close>: row 0 holds the space bar alone, 200 wide against a
  default width of 50.
\<close>

definition wideKeyRows :: "KeyboardRowW list" where
  "wideKeyRows =
     [\<lparr>keys = [newKey 2 spacebarLabel (Some SPACEBAR_WIDTH)], defaultRowWidth = 50\<rparr>,
      \<lparr>keys = [newKey 0 ''a'' None, newKey 1 ''b'' None], defaultRowWidth = 50\<rparr>,
      \<lparr>keys = [], defaultRowWidth = 200\<rparr>]"

text \<open>
  A keyboard of letter keys only, all of the default width, each row built by the
  \<^verbatim>\<open>KeyboardRow\<close> constructor of the second file.
\<close>

definition uniformKeyboard :: "KeyboardRowW list" where
  "uniformKeyboard = map KeyboardRow_part000 (letterRows 0 DEFAULT_LAYOUT_autosort)"

section \<open>Array and multiset facts\<close>

declare shuffleDown.simps [simp del] shedRow.simps [simp del] reflow.simps [simp del]
  getKeyPos_from.simps [simp del] shuffleDown_calls.simps [simp del]

lemma nat_int_pred: "nat (int m - 1) = m - 1"
  by arith

lemma nat_int_succ: "nat (int m + 1) = Suc m"
  by arith

lemma arrAt_nat: "i < length xs \<Longrightarrow> arrAt xs (int i) = Some (xs ! i)"
  by (simp add: arrAt_def)


lemma arrAt_last: "xs \<noteq> [] \<Longrightarrow> arrAt xs (int (length xs) - 1) = Some (last xs)"
  by (cases xs rule: rev_cases) (auto simp: arrAt_def nat_int_pred)

lemma arrAt_empty: "arrAt [] i = None"
  by (simp add: arrAt_def)

lemma spliceRemove1_nat:
  "spliceRemove1 (int c) xs = take c xs @ drop (Suc c) xs"
  by (auto simp: spliceRemove1_def spliceStart_def min_def)

lemma spliceRemove1_last: "xs \<noteq> [] \<Longrightarrow> spliceRemove1 (int (length xs) - 1) xs = butlast xs"
  by (cases xs rule: rev_cases) (auto simp: spliceRemove1_def spliceStart_def nat_int_pred)

lemma spliceInsert_0: "spliceInsert 0 x xs = x # xs"
  by (simp add: spliceInsert_def spliceStart_def)


lemma mset_remove_nth: "c < length xs \<Longrightarrow> add_mset (xs ! c) (mset (take c xs @ drop (Suc c) xs)) = mset xs"
proof -
  assume "c < length xs"
  then have "xs = take c xs @ xs ! c # drop (Suc c) xs"
    by (rule id_take_nth_drop)
  then have "mset xs = mset (take c xs @ xs ! c # drop (Suc c) xs)"
    by simp
  then show ?thesis by simp
qed

lemma rowWidth_sum: "rowWidth r = sum_list (map width (keys r))"
proof -
  have h: "foldl (\<lambda>prev cur. prev + width cur) a ks = a + sum_list (map width ks)" for a ks
    by (induction ks arbitrary: a) auto
  show ?thesis by (simp add: rowWidth_def h)
qed

lemma rowWidth_keys_update [simp]: "rowWidth (r\<lparr>keys := ks\<rparr>) = sum_list (map width ks)"
  by (simp add: rowWidth_sum)

subsection \<open>All keys of a keyboard and list update\<close>

lemma mset_allKeys_update:
  assumes "i < length kb"
  shows "mset (allKeys (kb[i := r])) + mset (keys (kb ! i)) = mset (allKeys kb) + mset (keys r)"
proof -
  have a: "kb = take i kb @ kb ! i # drop (Suc i) kb"
    using assms by (rule id_take_nth_drop)
  have b: "kb[i := r] = take i kb @ r # drop (Suc i) kb"
    using assms by (rule upd_conv_take_nth_drop)
  have "mset (allKeys kb) = mset (allKeys (take i kb @ kb ! i # drop (Suc i) kb))"
    using a by simp
  then show ?thesis
    unfolding b by (simp add: allKeys_def)
qed

lemma map_update_same: "f r = f (xs ! i) \<Longrightarrow> map f (xs[i := r]) = map f xs"
  by (metis list_update_id map_update)

subsection \<open>moveKey as promote and shedLast\<close>

lemma moveKey_promote:
  assumes "r < length kb" "c < length (keys (kb ! r))"
  shows "moveKey (Some (keys (kb ! r) ! c)) (int r) (int c) 0 0 kb = Normal (promote r c kb)"
  using assms
  by (auto simp: moveKey_def promote_def Let_def arrAt_def spliceRemove1_nat spliceInsert_0)

lemma moveKey_shedLast:
  assumes "Suc i < length kb" "keys (kb ! i) \<noteq> []"
  shows "moveKey (Some (last (keys (kb ! i)))) (int i)
           (int (length (keys (kb ! i))) - 1) (int i + 1) 0 kb = Normal (shedLast i kb)"
  using assms
  by (auto simp: moveKey_def shedLast_def Let_def arrAt_nat spliceRemove1_last
      spliceInsert_0 nat_int_succ arrAt_def [of _ "int i + 1"])

lemma moveKey_undefined:
  "moveKey None fromRow fromCol toRow toCol kb = Throw TypeError kb"
  by (simp add: moveKey_def split: option.splits)

lemma length_promote [simp]: "length (promote r c kb) = length kb"
  by (simp add: promote_def Let_def)

lemma length_shedLast [simp]: "length (shedLast i kb) = length kb"
  by (simp add: shedLast_def Let_def)

lemma mset_exchange:
  fixes A B M N :: "'a multiset"
  assumes "A + N = B + M" "N = add_mset k M"
  shows "add_mset k A = B"
proof -
  from assms have "add_mset k A + M = B + M" by simp
  then show ?thesis by (simp only: add_right_cancel)
qed

lemma mset_promote:
  assumes "r < length kb" "c < length (keys (kb ! r))"
  shows "mset (allKeys (promote r c kb)) = mset (allKeys kb)"
proof -
  define ks where "ks = keys (kb ! r)"
  define kb1 where "kb1 = kb[r := (kb ! r)\<lparr>keys := take c ks @ drop (Suc c) ks\<rparr>]"
  have 1: "mset (allKeys kb1) + mset ks = mset (allKeys kb) + mset (take c ks @ drop (Suc c) ks)"
    using mset_allKeys_update [OF assms(1)] by (simp add: kb1_def ks_def)
  have 0: "0 < length kb1" using assms by (auto simp: kb1_def)
  have p: "promote r c kb = kb1[0 := (kb1 ! 0)\<lparr>keys := (ks ! c) # keys (kb1 ! 0)\<rparr>]"
    by (simp add: promote_def Let_def kb1_def ks_def)
  have 2: "mset (allKeys (promote r c kb)) + mset (keys (kb1 ! 0))
           = mset (allKeys kb1) + mset ((ks ! c) # keys (kb1 ! 0))"
    unfolding p using mset_allKeys_update [OF 0] by simp
  from 2 have 3: "mset (allKeys (promote r c kb)) = add_mset (ks ! c) (mset (allKeys kb1))"
    by simp
  have "mset ks = add_mset (ks ! c) (mset (take c ks @ drop (Suc c) ks))"
    using mset_remove_nth [of c ks] assms(2) by (simp add: ks_def)
  from mset_exchange [OF 1 this] 3 show ?thesis by simp
qed

lemma mset_shedLast:
  assumes "Suc i < length kb" "keys (kb ! i) \<noteq> []"
  shows "mset (allKeys (shedLast i kb)) = mset (allKeys kb)"
proof -
  define ks where "ks = keys (kb ! i)"
  define kb1 where "kb1 = kb[i := (kb ! i)\<lparr>keys := butlast ks\<rparr>]"
  have i: "i < length kb" using assms by simp
  have 1: "mset (allKeys kb1) + mset ks = mset (allKeys kb) + mset (butlast ks)"
    using mset_allKeys_update [OF i] by (simp add: kb1_def ks_def)
  have s: "Suc i < length kb1" using assms by (simp add: kb1_def)
  have p: "shedLast i kb = kb1[Suc i := (kb1 ! Suc i)\<lparr>keys := last ks # keys (kb1 ! Suc i)\<rparr>]"
    by (simp add: shedLast_def Let_def kb1_def ks_def)
  have 2: "mset (allKeys (shedLast i kb)) + mset (keys (kb1 ! Suc i))
           = mset (allKeys kb1) + mset (last ks # keys (kb1 ! Suc i))"
    unfolding p using mset_allKeys_update [OF s] by simp
  from 2 have 3: "mset (allKeys (shedLast i kb)) = add_mset (last ks) (mset (allKeys kb1))"
    by simp
  have "mset ks = add_mset (last ks) (mset (butlast ks))"
    using assms(2) unfolding ks_def by (cases "keys (kb ! i)" rule: rev_cases) auto
  from mset_exchange [OF 1 this] 3 show ?thesis by simp
qed

subsection \<open>findIndex and getKeyPos\<close>

lemma findIndex_range: "findIndex p xs = - 1 \<or> (0 \<le> findIndex p xs \<and> findIndex p xs < int (length xs))"
  by (induction xs) (auto simp: Let_def)

lemma findIndex_none_iff: "findIndex p xs = - 1 \<longleftrightarrow> (\<forall>x \<in> set xs. \<not> p x)"
proof (induction xs)
  case Nil
  show ?case by simp
next
  case (Cons x xs)
  from findIndex_range [of p xs] have "findIndex p xs + 1 \<noteq> - 1" by auto
  with Cons show ?case by (auto simp: Let_def)
qed

lemma findIndex_found:
  "findIndex p xs \<noteq> - 1 \<Longrightarrow> nat (findIndex p xs) < length xs \<and> p (xs ! nat (findIndex p xs))"
proof (induction xs)
  case Nil
  then show ?case by simp
next
  case (Cons x xs)
  show ?case
  proof (cases "p x")
    case True
    then show ?thesis by simp
  next
    case False
    with Cons.prems have ne: "findIndex p xs \<noteq> - 1"
      by (auto simp: Let_def split: if_splits)
    with findIndex_range [of p xs] have ge: "0 \<le> findIndex p xs" by auto
    from ne Cons.IH have "nat (findIndex p xs) < length xs \<and> p (xs ! nat (findIndex p xs))"
      by simp
    with False ne ge show ?thesis
      by (simp add: Let_def nat_add_distrib)
  qed
qed

lemma getKeyPos_from_Some:
  "getKeyPos_from row kb key = Some (r, c) \<Longrightarrow>
     row \<le> r \<and> r < length kb \<and> c < length (keys (kb ! r)) \<and> keys (kb ! r) ! c = key"
proof (induction row kb key rule: getKeyPos_from.induct)
  case (1 row kb key)
  show ?case
  proof (cases "row < length kb")
    case False
    with "1.prems" show ?thesis by (simp add: getKeyPos_from.simps)
  next
    case True
    show ?thesis
    proof (cases "findIndex (\<lambda>k. k = key) (keys (kb ! row)) = - 1")
      case found: False
      with True "1.prems" have "r = row" "c = nat (findIndex (\<lambda>k. k = key) (keys (kb ! row)))"
        by (auto simp: getKeyPos_from.simps [of row] Let_def)
      with findIndex_found [OF found] True show ?thesis by simp
    next
      case none: True
      with True "1.prems" have "getKeyPos_from (row + 1) kb key = Some (r, c)"
        by (simp add: getKeyPos_from.simps [of row] Let_def)
      with "1.IH" [OF True refl] none show ?thesis by simp
    qed
  qed
qed

lemma getKeyPos_from_None:
  "getKeyPos_from row kb key = None \<longleftrightarrow>
     (\<forall>r. row \<le> r \<and> r < length kb \<longrightarrow> key \<notin> set (keys (kb ! r)))"
proof (induction row kb key rule: getKeyPos_from.induct)
  case (1 row kb key)
  show ?case
  proof (cases "row < length kb")
    case False
    then show ?thesis by (auto simp: getKeyPos_from.simps [of row])
  next
    case True
    show ?thesis
    proof (cases "findIndex (\<lambda>k. k = key) (keys (kb ! row)) = - 1")
      case found: False
      then have "key \<in> set (keys (kb ! row))"
        by (auto simp: findIndex_none_iff)
      with found True show ?thesis
        by (auto simp: getKeyPos_from.simps [of row] Let_def)
    next
      case none: True
      then have notin: "key \<notin> set (keys (kb ! row))"
        by (auto simp: findIndex_none_iff)
      from none True have "getKeyPos_from row kb key = getKeyPos_from (row + 1) kb key"
        by (simp add: getKeyPos_from.simps [of row] Let_def)
      moreover have "(\<forall>r. row \<le> r \<and> r < length kb \<longrightarrow> key \<notin> set (keys (kb ! r)))
          \<longleftrightarrow> (\<forall>r. row + 1 \<le> r \<and> r < length kb \<longrightarrow> key \<notin> set (keys (kb ! r)))"
        using notin by (metis Suc_eq_plus1 Suc_leI le_neq_implies_less add_leD1 le_add1 le_trans)
      ultimately show ?thesis
        using "1.IH" [OF True refl] none by simp
    qed
  qed
qed

lemma getKeyPos_Some:
  "getKeyPos key kb = Some (r, c) \<Longrightarrow>
     r < length kb \<and> c < length (keys (kb ! r)) \<and> keys (kb ! r) ! c = key"
  unfolding getKeyPos_def by (drule getKeyPos_from_Some) simp

lemma in_allKeys_iff: "k \<in> set (allKeys kb) \<longleftrightarrow> (\<exists>r<length kb. k \<in> set (keys (kb ! r)))"
  by (simp add: allKeys_def) (metis in_set_conv_nth)

lemma getKeyPos_None_iff: "getKeyPos key kb = None \<longleftrightarrow> key \<notin> set (allKeys kb)"
  by (auto simp: getKeyPos_def getKeyPos_from_None in_allKeys_iff)

lemma getKeyPos_head:
  "kb \<noteq> [] \<Longrightarrow> keys (kb ! 0) = key # rest \<Longrightarrow> getKeyPos key kb = Some (0, 0)"
  by (simp add: getKeyPos_def getKeyPos_from.simps [of 0])

subsection \<open>Rows after promote and shedLast\<close>

lemma nth_shedLast:
  "Suc i < length kb \<Longrightarrow>
   shedLast i kb ! j =
     (if j = Suc i then (kb ! Suc i)\<lparr>keys := last (keys (kb ! i)) # keys (kb ! Suc i)\<rparr>
      else if j = i then (kb ! i)\<lparr>keys := butlast (keys (kb ! i))\<rparr>
      else kb ! j)"
  by (auto simp: shedLast_def Let_def nth_list_update)

lemma nth_promote:
  "r < length kb \<Longrightarrow>
   promote r c kb ! j =
     (if j = 0 then
        (kb ! 0)\<lparr>keys := keys (kb ! r) ! c #
           (if r = 0 then take c (keys (kb ! 0)) @ drop (Suc c) (keys (kb ! 0)) else keys (kb ! 0))\<rparr>
      else if j = r then (kb ! r)\<lparr>keys := take c (keys (kb ! r)) @ drop (Suc c) (keys (kb ! r))\<rparr>
      else kb ! j)"
proof -
  assume r: "r < length kb"
  then have "0 < length kb" by (cases kb) auto
  with r show ?thesis
    by (auto simp: promote_def Let_def nth_list_update)
qed

lemma promote_top_left:
  assumes "kb \<noteq> []" "keys (kb ! 0) \<noteq> []"
  shows "promote 0 0 kb = kb"
proof -
  from assms(2) have "keys (kb ! 0) ! 0 # drop (Suc 0) (keys (kb ! 0)) = keys (kb ! 0)"
    by (cases "keys (kb ! 0)") auto
  with assms(1) show ?thesis
    by (simp add: promote_def Let_def)
qed

lemma defaults_shedLast:
  "map defaultRowWidth (shedLast i kb) = map defaultRowWidth kb"
  by (simp add: shedLast_def Let_def map_update_same nth_list_update)

lemma defaults_promote:
  "map defaultRowWidth (promote r c kb) = map defaultRowWidth kb"
  by (simp add: promote_def Let_def map_update_same nth_list_update)

subsection \<open>Unfolding one pass of each loop\<close>

lemma shuffleDown_done: "\<not> i < oldRow \<Longrightarrow> shuffleDown i oldRow kb = Normal kb"
  by (simp add: shuffleDown.simps)

lemma shuffleDown_step:
  "i < oldRow \<Longrightarrow> Suc i < length kb \<Longrightarrow> keys (kb ! i) \<noteq> [] \<Longrightarrow>
   shuffleDown i oldRow kb = shuffleDown (Suc i) oldRow (shedLast i kb)"
  by (subst shuffleDown.simps) (simp add: arrAt_nat Let_def moveKey_shedLast arrAt_last)

lemma shuffleDown_calls_done: "\<not> i < oldRow \<Longrightarrow> shuffleDown_calls i oldRow kb = []"
  by (simp add: shuffleDown_calls.simps)

lemma shuffleDown_calls_step:
  "i < oldRow \<Longrightarrow> Suc i < length kb \<Longrightarrow> keys (kb ! i) \<noteq> [] \<Longrightarrow>
   shuffleDown_calls i oldRow kb =
     (Some (last (keys (kb ! i))), int i, int (length (keys (kb ! i))) - 1, int i + 1, 0) #
     shuffleDown_calls (Suc i) oldRow (shedLast i kb)"
  by (subst shuffleDown_calls.simps) (simp add: arrAt_nat Let_def moveKey_shedLast arrAt_last)

lemma shedRow_done:
  "i < length kb \<Longrightarrow> \<not> defaultRowWidth (kb ! i) < rowWidth (kb ! i) \<Longrightarrow> shedRow i kb = Normal kb"
  by (subst shedRow.simps) (simp add: arrAt_nat)

lemma shedRow_step:
  "Suc i < length kb \<Longrightarrow> defaultRowWidth (kb ! i) < rowWidth (kb ! i) \<Longrightarrow> keys (kb ! i) \<noteq> [] \<Longrightarrow>
   shedRow i kb = shedRow i (shedLast i kb)"
  by (subst shedRow.simps) (simp add: arrAt_nat Let_def moveKey_shedLast arrAt_last)

lemma shedRow_empty:
  "i < length kb \<Longrightarrow> defaultRowWidth (kb ! i) < rowWidth (kb ! i) \<Longrightarrow> keys (kb ! i) = [] \<Longrightarrow>
   shedRow i kb = Throw TypeError kb"
  by (subst shedRow.simps) (simp add: arrAt_nat Let_def arrAt_empty moveKey_undefined)

lemma reflow_done: "\<not> Suc i < length kb \<Longrightarrow> reflow i kb = Normal kb"
  by (subst reflow.simps) auto

lemma reflow_step:
  "Suc i < length kb \<Longrightarrow>
   reflow i kb = (case shedRow i kb of Throw e s \<Rightarrow> Throw e s | Normal kb' \<Rightarrow> reflow (i + 1) kb')"
  by (subst reflow.simps) auto

subsection \<open>The row-count loop in closed form\<close>

lemma length_fold_shedLast [simp]: "length (fold shedLast js kb) = length kb"
  by (induction js arbitrary: kb) auto

lemma fold_shedLast_unfold:
  "i < n \<Longrightarrow> fold shedLast [i..<n] kb = fold shedLast [Suc i..<n] (shedLast i kb)"
  by (simp add: upt_conv_Cons)

lemma shedRange_induct [consumes 3, case_names base step]:
  assumes "i \<le> n" "n < length kb" "i < n \<longrightarrow> keys (kb ! i) \<noteq> []"
    and base: "\<And>t. length t = length kb \<Longrightarrow> Q n t t"
    and step: "\<And>j t t'. i \<le> j \<Longrightarrow> j < n \<Longrightarrow> length t = length kb \<Longrightarrow> keys (t ! j) \<noteq> [] \<Longrightarrow>
                 length t' = length kb \<Longrightarrow> Q (Suc j) (shedLast j t) t' \<Longrightarrow> Q j t t'"
  shows "Q i kb (fold shedLast [i..<n] kb)"
proof -
  have "i \<le> j \<Longrightarrow> j \<le> n \<Longrightarrow> length t = length kb \<Longrightarrow> (j < n \<longrightarrow> keys (t ! j) \<noteq> []) \<Longrightarrow>
        Q j t (fold shedLast [j..<n] t)" for j t
  proof (induction "n - j" arbitrary: j t)
    case 0
    then show ?case using base by simp
  next
    case (Suc d)
    then have jn: "j < n" by simp
    with Suc.prems have ne: "keys (t ! j) \<noteq> []" by simp
    from jn Suc.prems assms(2) have sj: "Suc j < length t" by simp
    have "Q (Suc j) (shedLast j t) (fold shedLast [Suc j..<n] (shedLast j t))"
    proof (rule Suc.hyps(1))
      show "d = n - Suc j" using Suc.hyps(2) by simp
      show "i \<le> Suc j" using Suc.prems by simp
      show "Suc j \<le> n" using jn by simp
      show "length (shedLast j t) = length kb" using Suc.prems by simp
      show "Suc j < n \<longrightarrow> keys (shedLast j t ! Suc j) \<noteq> []"
        using sj by (simp add: nth_shedLast)
    qed
    then have "Q j t (fold shedLast [Suc j..<n] (shedLast j t))"
    proof (rule step [rotated 5])
      show "i \<le> j" "j < n" "length t = length kb" "keys (t ! j) \<noteq> []"
        using Suc.prems jn ne by simp_all
      show "length (fold shedLast [Suc j..<n] (shedLast j t)) = length kb"
        using Suc.prems by simp
    qed
    then show ?case by (simp add: fold_shedLast_unfold [OF jn])
  qed
  from this [of i kb] assms show ?thesis by simp
qed

lemma shuffleDown_Normal:
  assumes "i \<le> oldRow" "oldRow < length kb" "i < oldRow \<longrightarrow> keys (kb ! i) \<noteq> []"
  shows "shuffleDown i oldRow kb = Normal (fold shedLast [i..<oldRow] kb)"
  using assms
proof (induction rule: shedRange_induct [where Q = "\<lambda>j t t'. shuffleDown j oldRow t = Normal t'"])
  case (base t)
  show ?case by (simp add: shuffleDown_done)
next
  case (step j t t')
  then show ?case using assms(2) by (simp add: shuffleDown_step)
qed

lemma mset_fold_shedLast:
  assumes "i \<le> n" "n < length kb" "i < n \<longrightarrow> keys (kb ! i) \<noteq> []"
  shows "mset (allKeys (fold shedLast [i..<n] kb)) = mset (allKeys kb)"
  using assms
proof (induction rule: shedRange_induct [where Q = "\<lambda>j t t'. mset (allKeys t') = mset (allKeys t)"])
  case (base t)
  show ?case by simp
next
  case (step j t t')
  then show ?case using assms(2) by (simp add: mset_shedLast)
qed

lemma fold_shedLast_above:
  assumes "i \<le> n" "n < length kb" "i < n \<longrightarrow> keys (kb ! i) \<noteq> []"
  shows "\<forall>m<i. fold shedLast [i..<n] kb ! m = kb ! m"
  using assms
proof (induction rule: shedRange_induct [where Q = "\<lambda>j t t'. \<forall>m<j. t' ! m = t ! m"])
  case (base t)
  show ?case by simp
next
  case (step j t t')
  then show ?case using assms(2) by (simp add: nth_shedLast)
qed

lemma fold_shedLast_lengths:
  assumes "i \<le> n" "n < length kb" "i < n \<longrightarrow> keys (kb ! i) \<noteq> []"
  shows "\<forall>m<length kb. int (length (keys (fold shedLast [i..<n] kb ! m))) =
           int (length (keys (kb ! m))) - (if i < n \<and> m = i then 1 else 0) + (if i < n \<and> m = n then 1 else 0)"
  using assms
proof (induction rule: shedRange_induct [where Q = "\<lambda>j t t'. \<forall>m<length kb. int (length (keys (t' ! m))) =
           int (length (keys (t ! m))) - (if j < n \<and> m = j then 1 else 0) + (if j < n \<and> m = n then 1 else 0)"])
  case (base t)
  show ?case by simp
next
  case (step j t t')
  have sj: "Suc j < length t" using step assms(2) by simp
  show ?case
  proof (intro allI impI)
    fix m assume m: "m < length kb"
    from step(6) m have ih:
      "int (length (keys (t' ! m))) = int (length (keys (shedLast j t ! m)))
          - (if Suc j < n \<and> m = Suc j then 1 else 0) + (if Suc j < n \<and> m = n then 1 else 0)"
      by blast
    have bl: "int (length (butlast (keys (t ! j)))) = int (length (keys (t ! j))) - 1"
      using step(4) by (cases "keys (t ! j)" rule: rev_cases) simp_all
    have row: "int (length (keys (shedLast j t ! m))) =
        int (length (keys (t ! m))) + (if m = Suc j then 1 else 0) - (if m = j then 1 else 0)"
    proof (cases "m = Suc j")
      case True
      then show ?thesis using sj by (simp add: nth_shedLast)
    next
      case False
      show ?thesis
      proof (cases "m = j")
        case True
        then show ?thesis using sj bl by (simp add: nth_shedLast del: length_butlast)
      next
        case neq: False
        with False show ?thesis using sj by (simp add: nth_shedLast)
      qed
    qed
    consider "Suc j < n" | "n = Suc j"
      using step(2) by linarith
    then show "int (length (keys (t' ! m))) =
           int (length (keys (t ! m))) - (if j < n \<and> m = j then 1 else 0) + (if j < n \<and> m = n then 1 else 0)"
    proof cases
      case 1
      with ih row step(2) show ?thesis by (simp split: if_splits)
    next
      case 2
      with ih row step(2) show ?thesis by (simp split: if_splits)
    qed
  qed
qed

lemma fold_shedLast_first:
  assumes "i < n" "n < length kb" "keys (kb ! i) \<noteq> []"
  shows "keys (fold shedLast [i..<n] kb ! i) = butlast (keys (kb ! i))"
proof -
  have si: "Suc i < length kb" using assms by simp
  have "fold shedLast [i..<n] kb = fold shedLast [Suc i..<n] (shedLast i kb)"
    by (rule fold_shedLast_unfold [OF assms(1)])
  moreover have "\<forall>m<Suc i. fold shedLast [Suc i..<n] (shedLast i kb) ! m = shedLast i kb ! m"
  proof (rule fold_shedLast_above)
    show "Suc i \<le> n" using assms by simp
    show "n < length (shedLast i kb)" using assms by simp
    show "Suc i < n \<longrightarrow> keys (shedLast i kb ! Suc i) \<noteq> []"
      using si by (simp add: nth_shedLast)
  qed
  ultimately show ?thesis using si by (simp add: nth_shedLast)
qed

lemma defaults_fold_shedLast:
  "map defaultRowWidth (fold shedLast js kb) = map defaultRowWidth kb"
  by (induction js arbitrary: kb) (auto simp: defaults_shedLast)

subsection \<open>sortKeys of autosort.js on a present key\<close>

lemma sortKeys_autosort_present:
  assumes "getKeyPos key kb = Some (r, c)"
  shows "sortKeys_autosort key kb = Normal (shedRowsAbove r (promote r c kb))"
proof -
  from getKeyPos_Some [OF assms] have r: "r < length kb" and c: "c < length (keys (kb ! r))"
    and k: "keys (kb ! r) ! c = key" by auto
  have mv: "moveKey (Some key) (int r) (int c) 0 0 kb = Normal (promote r c kb)"
    using moveKey_promote [OF r c] k by simp
  have "0 < r \<longrightarrow> keys (promote r c kb ! 0) \<noteq> []"
    using r by (simp add: nth_promote)
  then have "shuffleDown 0 r (promote r c kb) = Normal (fold shedLast [0..<r] (promote r c kb))"
    using r by (simp add: shuffleDown_Normal)
  with mv assms show ?thesis
    by (simp add: sortKeys_autosort_def shedRowsAbove_def)
qed

lemma sortKeys_autosort_absent:
  "getKeyPos key kb = None \<Longrightarrow> sortKeys_autosort key kb = Throw TypeError kb"
  by (simp add: sortKeys_autosort_def)

lemma sortKeys_autosort_mset:
  "mset (allKeys (stateOf (sortKeys_autosort key kb))) = mset (allKeys kb)"
proof (cases "getKeyPos key kb")
  case None
  then show ?thesis by (simp add: sortKeys_autosort_absent)
next
  case (Some p)
  obtain r c where p: "p = (r, c)" by (cases p)
  from getKeyPos_Some [OF Some [unfolded p]] have r: "r < length kb" and c: "c < length (keys (kb ! r))"
    by auto
  have "0 < r \<longrightarrow> keys (promote r c kb ! 0) \<noteq> []"
    using r by (simp add: nth_promote)
  then have "mset (allKeys (fold shedLast [0..<r] (promote r c kb))) = mset (allKeys (promote r c kb))"
    using r by (simp add: mset_fold_shedLast)
  then show ?thesis
    using sortKeys_autosort_present [OF Some [unfolded p]] mset_promote [OF r c]
    by (simp add: shedRowsAbove_def)
qed

lemma sortKeys_autosort_length:
  "length (stateOf (sortKeys_autosort key kb)) = length kb"
proof (cases "getKeyPos key kb")
  case None
  then show ?thesis by (simp add: sortKeys_autosort_absent)
next
  case (Some p)
  obtain r c where p: "p = (r, c)" by (cases p)
  show ?thesis
    using sortKeys_autosort_present [OF Some [unfolded p]] by (simp add: shedRowsAbove_def)
qed

text \<open>Row lengths and the top-left key after a press, when row 0 is not empty.\<close>

lemma sortKeys_autosort_rows:
  assumes pos: "getKeyPos key kb = Some (r, c)" and top: "keys (kb ! 0) \<noteq> []"
  shows "\<exists>kb'. sortKeys_autosort key kb = Normal kb' \<and> length kb' = length kb \<and>
           (\<forall>m<length kb. length (keys (kb' ! m)) = length (keys (kb ! m))) \<and>
           (\<exists>rest. keys (kb' ! 0) = key # rest)"
proof -
  from getKeyPos_Some [OF pos] have r: "r < length kb" and c: "c < length (keys (kb ! r))"
    and k: "keys (kb ! r) ! c = key" by auto
  define s0 where "s0 = promote r c kb"
  define kb' where "kb' = fold shedLast [0..<r] s0"
  have res: "sortKeys_autosort key kb = Normal kb'"
    using sortKeys_autosort_present [OF pos] by (simp add: kb'_def s0_def shedRowsAbove_def)
  have len0: "length s0 = length kb" by (simp add: s0_def)
  have ne0: "0 < r \<longrightarrow> keys (s0 ! 0) \<noteq> []"
    using r by (simp add: s0_def nth_promote)
  have r0: "r < length s0" using r len0 by simp
  have lens: "\<forall>m<length s0. int (length (keys (kb' ! m))) =
           int (length (keys (s0 ! m))) - (if 0 < r \<and> m = 0 then 1 else 0) + (if 0 < r \<and> m = r then 1 else 0)"
    unfolding kb'_def by (rule fold_shedLast_lengths [OF le0 r0 ne0])
  have "length (keys (kb' ! m)) = length (keys (kb ! m))" if m: "m < length kb" for m
  proof -
    from lens m len0 have "int (length (keys (kb' ! m))) =
           int (length (keys (s0 ! m))) - (if 0 < r \<and> m = 0 then 1 else 0) + (if 0 < r \<and> m = r then 1 else 0)"
      by simp
    moreover have "int (length (keys (s0 ! m))) =
        int (length (keys (kb ! m))) + (if 0 < r \<and> m = 0 then 1 else 0) - (if 0 < r \<and> m = r then 1 else 0)"
      using r c by (auto simp: s0_def nth_promote)
    ultimately show ?thesis by simp
  qed
  moreover have "\<exists>rest. keys (kb' ! 0) = key # rest"
  proof (cases "0 < r")
    case False
    then show ?thesis using r k by (simp add: kb'_def s0_def nth_promote)
  next
    case True
    then have "keys (s0 ! 0) = key # keys (kb ! 0)"
      using r k by (simp add: s0_def nth_promote)
    moreover have "keys (kb' ! 0) = butlast (keys (s0 ! 0))"
      unfolding kb'_def using fold_shedLast_first [OF True r0] ne0 True by simp
    ultimately show ?thesis using top by simp
  qed
  ultimately show ?thesis using res len0 by (simp add: kb'_def)
qed

subsection \<open>The width loop for one row\<close>

lemma rowWidth_shedLast_source:
  "Suc i < length kb \<Longrightarrow> keys (kb ! i) \<noteq> [] \<Longrightarrow>
   rowWidth (shedLast i kb ! i) = rowWidth (kb ! i) - width (last (keys (kb ! i)))"
  by (cases "keys (kb ! i)" rule: rev_cases) (simp_all add: nth_shedLast rowWidth_sum)

lemma rowWidth_shedLast_target:
  "Suc i < length kb \<Longrightarrow>
   rowWidth (shedLast i kb ! Suc i) = rowWidth (kb ! Suc i) + width (last (keys (kb ! i)))"
  by (simp add: nth_shedLast rowWidth_sum)

lemma default_shedLast [simp]:
  "m < length kb \<Longrightarrow> defaultRowWidth (shedLast i kb ! m) = defaultRowWidth (kb ! m)"
  using arg_cong [OF defaults_shedLast [of i kb], of "\<lambda>xs. xs ! m"] by simp

lemma default_promote [simp]:
  "m < length kb \<Longrightarrow> defaultRowWidth (promote r c kb ! m) = defaultRowWidth (kb ! m)"
  using arg_cong [OF defaults_promote [of r c kb], of "\<lambda>xs. xs ! m"] by simp

lemma shedRow_induct_rule [consumes 1, case_names within empty over]:
  assumes "Suc i < length kb"
    and within: "\<And>t. length t = length kb \<Longrightarrow> \<not> defaultRowWidth (t ! i) < rowWidth (t ! i) \<Longrightarrow>
                   Q t (Normal t)"
    and empty: "\<And>t. length t = length kb \<Longrightarrow> defaultRowWidth (t ! i) < rowWidth (t ! i) \<Longrightarrow>
                   keys (t ! i) = [] \<Longrightarrow> Q t (Throw TypeError t)"
    and over: "\<And>t out. length t = length kb \<Longrightarrow> defaultRowWidth (t ! i) < rowWidth (t ! i) \<Longrightarrow>
                   keys (t ! i) \<noteq> [] \<Longrightarrow> Q (shedLast i t) out \<Longrightarrow> Q t out"
  shows "Q kb (shedRow i kb)"
proof -
  have "length t = length kb \<Longrightarrow> Q t (shedRow i t)" for t
  proof (induction "length (keys (t ! i))" arbitrary: t rule: less_induct)
    case less
    from less.prems assms(1) have si: "Suc i < length t" by simp
    show ?case
    proof (cases "defaultRowWidth (t ! i) < rowWidth (t ! i)")
      case False
      with si less.prems show ?thesis by (simp add: shedRow_done within)
    next
      case True
      show ?thesis
      proof (cases "keys (t ! i) = []")
        case empty': True
        with True si less.prems show ?thesis by (simp add: shedRow_empty empty)
      next
        case ne: False
        have "length (keys (shedLast i t ! i)) < length (keys (t ! i))"
          using si ne by (cases "keys (t ! i)" rule: rev_cases) (simp_all add: nth_shedLast)
        then have "Q (shedLast i t) (shedRow i (shedLast i t))"
          using less.prems by (simp add: less.hyps)
        then have "Q t (shedRow i (shedLast i t))"
          using less.prems True ne by (rule over [rotated 3])
        then show ?thesis using si True ne by (simp add: shedRow_step)
      qed
    qed
  qed
  then show ?thesis by simp
qed

text \<open>Whatever one move of the loop preserves, the loop preserves.\<close>

lemma shedRow_invariant:
  assumes "Suc i < length kb" "P kb"
    and step: "\<And>t. P t \<Longrightarrow> length t = length kb \<Longrightarrow> defaultRowWidth (t ! i) < rowWidth (t ! i) \<Longrightarrow>
                 keys (t ! i) \<noteq> [] \<Longrightarrow> P (shedLast i t)"
  shows "P (stateOf (shedRow i kb))"
proof -
  have "P kb \<longrightarrow> P (stateOf (shedRow i kb))"
    using assms(1)
  proof (induction rule: shedRow_induct_rule [where Q = "\<lambda>t out. P t \<longrightarrow> P (stateOf out)"])
    case (within t)
    then show ?case by simp
  next
    case (empty t)
    then show ?case by simp
  next
    case (over t out)
    then show ?case using step by blast
  qed
  with assms(2) show ?thesis by simp
qed

lemma shedRow_length: "Suc i < length kb \<Longrightarrow> length (stateOf (shedRow i kb)) = length kb"
  by (rule shedRow_invariant [where P = "\<lambda>t. length t = length kb"]) simp_all

lemma shedRow_defaults:
  "Suc i < length kb \<Longrightarrow> map defaultRowWidth (stateOf (shedRow i kb)) = map defaultRowWidth kb"
  by (rule shedRow_invariant [where P = "\<lambda>t. map defaultRowWidth t = map defaultRowWidth kb"])
     (simp_all add: defaults_shedLast)

lemma shedRow_mset:
  "Suc i < length kb \<Longrightarrow> mset (allKeys (stateOf (shedRow i kb))) = mset (allKeys kb)"
  by (rule shedRow_invariant [where P = "\<lambda>t. mset (allKeys t) = mset (allKeys kb)"])
     (simp_all add: mset_shedLast)

lemma shedRow_other_rows:
  "Suc i < length kb \<Longrightarrow> m \<noteq> i \<Longrightarrow> m \<noteq> Suc i \<Longrightarrow> stateOf (shedRow i kb) ! m = kb ! m"
  by (rule shedRow_invariant [where P = "\<lambda>t. t ! m = kb ! m"]) (simp_all add: nth_shedLast)

text \<open>How the loop ends: within budget, or thrown on an empty row with a negative budget.\<close>

lemma shedRow_end:
  assumes "Suc i < length kb"
  shows "case shedRow i kb of
           Normal t \<Rightarrow> \<not> defaultRowWidth (t ! i) < rowWidth (t ! i)
         | Throw e t \<Rightarrow> keys (t ! i) = [] \<and> defaultRowWidth (t ! i) < 0"
  using assms
proof (induction rule: shedRow_induct_rule [where Q = "\<lambda>t out. case out of
           Normal t \<Rightarrow> \<not> defaultRowWidth (t ! i) < rowWidth (t ! i)
         | Throw e t \<Rightarrow> keys (t ! i) = [] \<and> defaultRowWidth (t ! i) < 0"])
  case (within t)
  then show ?case by simp
next
  case (empty t)
  then show ?case by (simp add: rowWidth_sum)
next
  case (over t out)
  then show ?case by simp
qed

lemma shedRow_Normal_within:
  "Suc i < length kb \<Longrightarrow> shedRow i kb = Normal t \<Longrightarrow> rowWidth (t ! i) \<le> defaultRowWidth (t ! i)"
  using shedRow_end [of i kb] by simp

lemma shedRow_no_throw:
  assumes "Suc i < length kb" "0 \<le> defaultRowWidth (kb ! i)"
  shows "\<exists>t. shedRow i kb = Normal t"
proof (cases "shedRow i kb")
  case (Normal t)
  then show ?thesis by simp
next
  case (Throw e t)
  with shedRow_end [OF assms(1)] have "defaultRowWidth (t ! i) < 0" by simp
  moreover have "map defaultRowWidth t = map defaultRowWidth kb"
    using shedRow_defaults [OF assms(1)] Throw by simp
  then have "defaultRowWidth (t ! i) = defaultRowWidth (kb ! i)"
    using assms(1) by (metis Suc_lessD length_map nth_map)
  ultimately show ?thesis using assms(2) by simp
qed

text \<open>The first key of the row stays when it fits the budget on its own.\<close>

lemma shedRow_keeps_head:
  assumes "Suc i < length kb" "keys (kb ! i) = key # rest" "width key \<le> defaultRowWidth (kb ! i)"
  shows "\<exists>rest'. keys (stateOf (shedRow i kb) ! i) = key # rest'"
proof -
  let ?P = "\<lambda>t. (\<exists>rest'. keys (t ! i) = key # rest') \<and> defaultRowWidth (t ! i) = defaultRowWidth (kb ! i)"
  have "?P (stateOf (shedRow i kb))"
  proof (rule shedRow_invariant [OF assms(1)])
    show "?P kb" using assms(2) by simp
  next
    fix t
    assume P: "?P t" and len: "length t = length kb"
      and over: "defaultRowWidth (t ! i) < rowWidth (t ! i)"
    from P obtain rest' where r: "keys (t ! i) = key # rest'" by blast
    from over P r assms(3) have "rest' \<noteq> []"
      by (auto simp: rowWidth_sum)
    with r have "butlast (keys (t ! i)) = key # butlast rest'" by simp
    then show "?P (shedLast i t)"
      using P len assms(1) by (simp add: nth_shedLast)
  qed
  then show ?thesis by simp
qed

subsection \<open>The width loop over all rows\<close>

lemma reflow_induct_rule [case_names stop thrown cont]:
  assumes stop: "\<And>j t. length t = length kb \<Longrightarrow> i \<le> j \<Longrightarrow> \<not> Suc j < length kb \<Longrightarrow> Q j t (Normal t)"
    and thrown: "\<And>j t e s. length t = length kb \<Longrightarrow> i \<le> j \<Longrightarrow> Suc j < length kb \<Longrightarrow>
                  shedRow j t = Throw e s \<Longrightarrow> Q j t (Throw e s)"
    and cont: "\<And>j t t1 out. length t = length kb \<Longrightarrow> i \<le> j \<Longrightarrow> Suc j < length kb \<Longrightarrow>
                  shedRow j t = Normal t1 \<Longrightarrow> length t1 = length kb \<Longrightarrow> Q (Suc j) t1 out \<Longrightarrow> Q j t out"
  shows "Q i kb (reflow i kb)"
proof -
  have "i \<le> j \<Longrightarrow> length t = length kb \<Longrightarrow> Q j t (reflow j t)" for j t
  proof (induction "length kb - j" arbitrary: j t)
    case 0
    then show ?case by (simp add: reflow_done stop)
  next
    case (Suc d)
    show ?case
    proof (cases "Suc j < length kb")
      case False
      with Suc.prems show ?thesis by (simp add: reflow_done stop)
    next
      case True
      then have sj: "Suc j < length t" using Suc.prems by simp
      show ?thesis
      proof (cases "shedRow j t")
        case (Throw e s)
        with sj True Suc.prems show ?thesis by (simp add: reflow_step thrown)
      next
        case (Normal t1)
        have l1: "length t1 = length kb"
          using shedRow_length [OF sj] Normal Suc.prems by simp
        have "Q (Suc j) t1 (reflow (Suc j) t1)"
          using Suc.hyps(2) Suc.prems l1 by (simp add: Suc.hyps(1))
        then have "Q j t (reflow (Suc j) t1)"
          by (rule cont [OF Suc.prems(2) Suc.prems(1) True Normal l1])
        with sj Normal show ?thesis by (simp add: reflow_step)
      qed
    qed
  qed
  then show ?thesis by simp
qed

lemma reflow_invariant:
  assumes "P kb"
    and step: "\<And>j t. P t \<Longrightarrow> length t = length kb \<Longrightarrow> i \<le> j \<Longrightarrow> Suc j < length kb \<Longrightarrow>
                 P (stateOf (shedRow j t))"
  shows "P (stateOf (reflow i kb))"
proof -
  have "P kb \<longrightarrow> P (stateOf (reflow i kb))"
  proof (induction rule: reflow_induct_rule [where Q = "\<lambda>j t out. P t \<longrightarrow> P (stateOf out)"])
    case (stop j t)
    then show ?case by simp
  next
    case (thrown j t e s)
    then show ?case using step [of t j] by auto
  next
    case (cont j t t1 out)
    then show ?case using step [of t j] by auto
  qed
  with assms(1) show ?thesis by simp
qed

lemma reflow_length: "length (stateOf (reflow i kb)) = length kb"
  by (rule reflow_invariant [where P = "\<lambda>t. length t = length kb"]) (simp_all add: shedRow_length)

lemma reflow_defaults: "map defaultRowWidth (stateOf (reflow i kb)) = map defaultRowWidth kb"
  by (rule reflow_invariant [where P = "\<lambda>t. map defaultRowWidth t = map defaultRowWidth kb"])
     (simp_all add: shedRow_defaults)

lemma reflow_mset: "mset (allKeys (stateOf (reflow i kb))) = mset (allKeys kb)"
  by (rule reflow_invariant [where P = "\<lambda>t. mset (allKeys t) = mset (allKeys kb)"])
     (simp_all add: shedRow_mset)

lemma reflow_rows_above: "m < i \<Longrightarrow> stateOf (reflow i kb) ! m = kb ! m"
  by (rule reflow_invariant [where P = "\<lambda>t. t ! m = kb ! m"]) (simp_all add: shedRow_other_rows)

lemma reflow_Normal_within:
  assumes "reflow i kb = Normal kb'"
  shows "\<forall>m. i \<le> m \<and> Suc m < length kb \<longrightarrow> rowWidth (kb' ! m) \<le> defaultRowWidth (kb' ! m)"
proof -
  let ?Q = "\<lambda>j t out. \<forall>s. out = Normal s \<longrightarrow> (\<forall>m<j. s ! m = t ! m) \<and>
     (\<forall>m. j \<le> m \<and> Suc m < length kb \<longrightarrow> rowWidth (s ! m) \<le> defaultRowWidth (s ! m))"
  have "?Q i kb (reflow i kb)"
  proof (induction rule: reflow_induct_rule [where Q = ?Q])
    case (stop j t)
    then show ?case by auto
  next
    case (thrown j t e s)
    show ?case by simp
  next
    case (cont j t t1 out)
    show ?case
    proof (intro allI impI)
      fix s assume out: "out = Normal s"
      from cont have sj: "Suc j < length t" by simp
      from cont have sh: "shedRow j t = Normal t1" by simp
      from cont out have above: "\<forall>m<Suc j. s ! m = t1 ! m"
        and below: "\<forall>m. Suc j \<le> m \<and> Suc m < length kb \<longrightarrow> rowWidth (s ! m) \<le> defaultRowWidth (s ! m)"
        by auto
      have t1: "t1 = stateOf (shedRow j t)" using sh by simp
      have "s ! m = t ! m" if "m < j" for m
        using above that shedRow_other_rows [OF sj, of m] t1 by simp
      moreover have "rowWidth (s ! j) \<le> defaultRowWidth (s ! j)"
        using above shedRow_Normal_within [OF sj sh] by simp
      ultimately show "(\<forall>m<j. s ! m = t ! m) \<and>
        (\<forall>m. j \<le> m \<and> Suc m < length kb \<longrightarrow> rowWidth (s ! m) \<le> defaultRowWidth (s ! m))"
        using below by (metis Suc_leI le_neq_implies_less)
    qed
  qed
  with assms show ?thesis by simp
qed

lemma reflow_no_throw:
  assumes "\<forall>m<length kb. 0 \<le> defaultRowWidth (kb ! m)"
  shows "\<exists>kb'. reflow i kb = Normal kb'"
proof -
  let ?Q = "\<lambda>j t out. map defaultRowWidth t = map defaultRowWidth kb \<longrightarrow> (\<exists>s. out = Normal s)"
  have "?Q i kb (reflow i kb)"
  proof (induction rule: reflow_induct_rule [where Q = ?Q])
    case (stop j t)
    show ?case by simp
  next
    case (thrown j t e s)
    show ?case
    proof
      assume d: "map defaultRowWidth t = map defaultRowWidth kb"
      from thrown have sj: "Suc j < length t" and jk: "j < length kb" by simp_all
      from thrown have th: "shedRow j t = Throw e s" by simp
      from d have "defaultRowWidth (t ! j) = defaultRowWidth (kb ! j)"
        using sj jk by (metis Suc_lessD length_map nth_map)
      with assms jk have "0 \<le> defaultRowWidth (t ! j)" by simp
      from shedRow_no_throw [OF sj this] th show "\<exists>s'. Throw e s = Normal s'" by simp
    qed
  next
    case (cont j t t1 out)
    from cont have sj: "Suc j < length t" by simp
    from cont have sh: "shedRow j t = Normal t1" by simp
    have "map defaultRowWidth t1 = map defaultRowWidth t"
      using shedRow_defaults [OF sj] sh by simp
    with cont show ?case by simp
  qed
  then show ?thesis by simp
qed

lemma reflow_within_noop:
  assumes "\<forall>m. i \<le> m \<and> Suc m < length kb \<longrightarrow> rowWidth (kb ! m) \<le> defaultRowWidth (kb ! m)"
  shows "reflow i kb = Normal kb"
proof -
  let ?W = "\<lambda>j t. \<forall>m. j \<le> m \<and> Suc m < length kb \<longrightarrow> rowWidth (t ! m) \<le> defaultRowWidth (t ! m)"
  let ?Q = "\<lambda>j t out. ?W j t \<longrightarrow> out = Normal t"
  have "?Q i kb (reflow i kb)"
  proof (induction rule: reflow_induct_rule [where Q = ?Q])
    case (stop j t)
    show ?case by simp
  next
    case (thrown j t e s)
    show ?case
    proof
      assume w: "?W j t"
      from thrown have sj: "Suc j < length t" and jk: "Suc j < length kb" by simp_all
      from thrown have th: "shedRow j t = Throw e s" by simp
      from w jk have "\<not> defaultRowWidth (t ! j) < rowWidth (t ! j)" by auto
      with sj have "shedRow j t = Normal t" by (simp add: shedRow_done)
      with th show "Throw e s = Normal t" by simp
    qed
  next
    case (cont j t t1 out)
    show ?case
    proof
      assume w: "?W j t"
      from cont have sj: "Suc j < length t" and jk: "Suc j < length kb" by simp_all
      from cont have sh: "shedRow j t = Normal t1" by simp
      from w jk have "\<not> defaultRowWidth (t ! j) < rowWidth (t ! j)" by auto
      with sj have "shedRow j t = Normal t" by (simp add: shedRow_done)
      with sh have "t1 = t" by simp
      with w cont show "out = Normal t" by auto
    qed
  qed
  with assms show ?thesis by simp
qed

subsection \<open>sortKeys of the second file\<close>

lemma sortKeys_part000_absent:
  "getKeyPos key kb = None \<Longrightarrow> sortKeys_part000 key kb = Throw TypeError kb"
  by (simp add: sortKeys_part000_def)

lemma sortKeys_part000_present:
  assumes "getKeyPos key kb = Some (r, c)"
  shows "sortKeys_part000 key kb = reflow 0 (promote r c kb)"
proof -
  from getKeyPos_Some [OF assms] have r: "r < length kb" and c: "c < length (keys (kb ! r))"
    and k: "keys (kb ! r) ! c = key" by auto
  have "moveKey (Some key) (int r) (int c) 0 0 kb = Normal (promote r c kb)"
    using moveKey_promote [OF r c] k by simp
  with assms show ?thesis by (simp add: sortKeys_part000_def)
qed

lemma sortKeys_part000_cases:
  obtains (absent) "getKeyPos key kb = None" "sortKeys_part000 key kb = Throw TypeError kb"
  | (present) r c where "getKeyPos key kb = Some (r, c)" "r < length kb" "c < length (keys (kb ! r))"
      "keys (kb ! r) ! c = key" "sortKeys_part000 key kb = reflow 0 (promote r c kb)"
proof (cases "getKeyPos key kb")
  case None
  then show ?thesis using absent by (simp add: sortKeys_part000_absent)
next
  case (Some p)
  obtain r c where p: "p = (r, c)" by (cases p)
  with Some have pos: "getKeyPos key kb = Some (r, c)" by simp
  from getKeyPos_Some [OF pos] sortKeys_part000_present [OF pos] pos show ?thesis
    using present by blast
qed

lemma sortKeys_part000_mset:
  "mset (allKeys (stateOf (sortKeys_part000 key kb))) = mset (allKeys kb)"
  by (cases key kb rule: sortKeys_part000_cases) (simp_all add: reflow_mset mset_promote)

lemma sortKeys_part000_length: "length (stateOf (sortKeys_part000 key kb)) = length kb"
  by (cases key kb rule: sortKeys_part000_cases) (simp_all add: reflow_length)

lemma sortKeys_part000_defaults:
  "map defaultRowWidth (stateOf (sortKeys_part000 key kb)) = map defaultRowWidth kb"
  by (cases key kb rule: sortKeys_part000_cases) (simp_all add: reflow_defaults defaults_promote)

lemma sortKeys_part000_Normal_within:
  assumes "sortKeys_part000 key kb = Normal kb'"
  shows "\<forall>m. Suc m < length kb' \<longrightarrow> rowWidth (kb' ! m) \<le> defaultRowWidth (kb' ! m)"
proof (cases key kb rule: sortKeys_part000_cases)
  case absent
  with assms show ?thesis by simp
next
  case (present r c)
  with assms have rf: "reflow 0 (promote r c kb) = Normal kb'" by simp
  have "length kb' = length (promote r c kb)"
    using reflow_length [of 0 "promote r c kb"] rf by simp
  with reflow_Normal_within [OF rf] show ?thesis by simp
qed

lemma sortKeys_part000_no_throw:
  assumes "getKeyPos key kb = Some (r, c)" "\<forall>m<length kb. 0 \<le> defaultRowWidth (kb ! m)"
  shows "\<exists>kb'. sortKeys_part000 key kb = Normal kb'"
proof -
  have "\<forall>m<length (promote r c kb). 0 \<le> defaultRowWidth (promote r c kb ! m)"
    using assms(2) by simp
  from reflow_no_throw [OF this] sortKeys_part000_present [OF assms(1)] show ?thesis by simp
qed

lemma sortKeys_part000_keeps_head:
  assumes pos: "getKeyPos key kb = Some (r, c)" and fits: "width key \<le> defaultRowWidth (kb ! 0)"
  shows "\<exists>rest. keys (stateOf (sortKeys_part000 key kb) ! 0) = key # rest"
proof -
  from getKeyPos_Some [OF pos] have r: "r < length kb" and c: "c < length (keys (kb ! r))"
    and k: "keys (kb ! r) ! c = key" by auto
  define s0 where "s0 = promote r c kb"
  have res: "sortKeys_part000 key kb = reflow 0 s0"
    using sortKeys_part000_present [OF pos] by (simp add: s0_def)
  have len: "length s0 = length kb" by (simp add: s0_def)
  have pos0: "0 < length kb" using r by (cases kb) auto
  obtain rest where hd: "keys (s0 ! 0) = key # rest"
    using r k by (simp add: s0_def nth_promote)
  have d0: "defaultRowWidth (s0 ! 0) = defaultRowWidth (kb ! 0)"
    using pos0 by (simp add: s0_def)
  show ?thesis
  proof (cases "Suc 0 < length s0")
    case False
    then have "reflow 0 s0 = Normal s0" by (simp add: reflow_done)
    with res hd show ?thesis by simp
  next
    case True
    from shedRow_keeps_head [OF True hd] fits d0
    obtain rest' where h1: "keys (stateOf (shedRow 0 s0) ! 0) = key # rest'" by auto
    show ?thesis
    proof (cases "shedRow 0 s0")
      case (Throw e s)
      with True have "reflow 0 s0 = Throw e s" by (simp add: reflow_step)
      with res h1 Throw show ?thesis by simp
    next
      case (Normal t1)
      with True have "reflow 0 s0 = reflow (Suc 0) t1" by (simp add: reflow_step)
      moreover have "stateOf (reflow (Suc 0) t1) ! 0 = t1 ! 0"
        by (rule reflow_rows_above) simp
      ultimately show ?thesis using res h1 Normal by simp
    qed
  qed
qed

section \<open>Lookup failure and bounds\<close>

text \<open>
  C8: when \<^verbatim>\<open>sortKeys\<close> is called with a key that is in no row, \<^verbatim>\<open>getKeyPos\<close> reports
  not-found (\<open>None\<close>), \<^verbatim>\<open>sortKeys\<close> is aborted by a TypeError and the rows are exactly
  the rows before the call, in both files.
\<close>

theorem sortKeys_absent_key_aborts:
  "(key \<notin> set (allKeys kb) \<longrightarrow>
      getKeyPos key kb = None \<and> sortKeys_autosort key kb = Throw TypeError kb) \<and>
   (key \<notin> set (allKeys kbw) \<longrightarrow>
      getKeyPos key kbw = None \<and> sortKeys_part000 key kbw = Throw TypeError kbw)"
  by (simp add: getKeyPos_None_iff sortKeys_autosort_absent sortKeys_part000_absent)

theorem sortKeys_absent_key_aborts_witness:
  "newKey 99 ''1'' None \<notin> set (allKeys Keyboard_autosort) \<and>
   getKeyPos (newKey 99 ''1'' None) Keyboard_autosort = None \<and>
   sortKeys_autosort (newKey 99 ''1'' None) Keyboard_autosort = Throw TypeError Keyboard_autosort \<and>
   newKey 99 ''1'' None \<notin> set (allKeys Keyboard_part000) \<and>
   getKeyPos (newKey 99 ''1'' None) Keyboard_part000 = None \<and>
   sortKeys_part000 (newKey 99 ''1'' None) Keyboard_part000 = Throw TypeError Keyboard_part000"
proof -
  have a: "newKey 99 ''1'' None \<notin> set (allKeys Keyboard_autosort)"
    by code_simp
  have b: "newKey 99 ''1'' None \<notin> set (allKeys Keyboard_part000)"
    by code_simp
  from a b sortKeys_absent_key_aborts [of "newKey 99 ''1'' None" Keyboard_autosort Keyboard_part000]
  show ?thesis by simp
qed

text \<open>What \<^verbatim>\<open>getKey\<close> returns, case by case.\<close>

lemma getKey_result:
  "getKey row col kb =
     (if row < 0 \<or> int (length kb) \<le> row \<or> col < 0 then JSNull
      else if int (length (keys (kb ! nat row))) \<le> col then JSUndefined
      else JSKey (keys (kb ! nat row) ! nat col))"
  by (simp add: getKey_def rowLengthProperty_def arrAt_def)

text \<open>
  C10: \<^verbatim>\<open>getKey\<close> is documented to return \<^verbatim>\<open>null\<close> for every position out of bounds.
  Row 0 of either keyboard holds 11 keys, so column 11 is out of bounds; there
  \<^verbatim>\<open>getKey(0, 11)\<close> returns \<^verbatim>\<open>undefined\<close>, not \<^verbatim>\<open>null\<close>: the column test compares with
  the \<^verbatim>\<open>length\<close> of the row object, which it does not have.
\<close>

theorem getKey_past_row_end_undefined:
  "length (keys (Keyboard_autosort ! 0)) = 11 \<and> getKey 0 11 Keyboard_autosort = JSUndefined \<and>
   length (keys (Keyboard_part000 ! 0)) = 11 \<and> getKey 0 11 Keyboard_part000 = JSUndefined"
  by code_simp

section \<open>The scenario: pressing m on the three-row keyboard\<close>

text \<open>
  C4, as stated, fails: after pressing \<^verbatim>\<open>m\<close> on the keyboard of \<^verbatim>\<open>autosort.js\<close> the key
  \<^verbatim>\<open>p\<close> is not at row 1, column 0.
\<close>

theorem press_m_sheds_backspace_not_p:
  "getKeyPos (newKey 9 ''p'' None)
     (stateOf (sortKeys_autosort (newKey 25 ''m'' None) Keyboard_autosort)) \<noteq> Some (1, 0)"
  by code_simp

text \<open>
  C4, amended: pressing \<^verbatim>\<open>m\<close> (found at row 2, column 6) puts \<^verbatim>\<open>m\<close> at (0, 0). The last
  key of row 0 is the backspace key, which the constructor pushed after the letters;
  it is the key shed to (1, 0), and the enter key, last of row 1, is shed to (2, 0).
  \<^verbatim>\<open>p\<close> stays in row 0, at column 10. The rows keep 11, 10 and 7 keys, and the reading
  order of all keys other than \<^verbatim>\<open>m\<close> is unchanged.
\<close>

theorem press_m_scenario:
  "getKeyPos (newKey 25 ''m'' None) Keyboard_autosort = Some (2, 6) \<and>
   sortKeys_autosort (newKey 25 ''m'' None) Keyboard_autosort
     = Normal (stateOf (sortKeys_autosort (newKey 25 ''m'' None) Keyboard_autosort)) \<and>
   getKeyPos (newKey 25 ''m'' None)
     (stateOf (sortKeys_autosort (newKey 25 ''m'' None) Keyboard_autosort)) = Some (0, 0) \<and>
   getKeyPos (newKey 26 backspaceLabel (Some BACKSPACE_WIDTH_autosort))
     (stateOf (sortKeys_autosort (newKey 25 ''m'' None) Keyboard_autosort)) = Some (1, 0) \<and>
   getKeyPos (newKey 27 enterLabel (Some ENTER_WIDTH_autosort))
     (stateOf (sortKeys_autosort (newKey 25 ''m'' None) Keyboard_autosort)) = Some (2, 0) \<and>
   getKeyPos (newKey 9 ''p'' None)
     (stateOf (sortKeys_autosort (newKey 25 ''m'' None) Keyboard_autosort)) = Some (0, 10) \<and>
   map (length \<circ> keys)
     (stateOf (sortKeys_autosort (newKey 25 ''m'' None) Keyboard_autosort)) = [11, 10, 7] \<and>
   allKeys (stateOf (sortKeys_autosort (newKey 25 ''m'' None) Keyboard_autosort))
     = newKey 25 ''m'' None # remove1 (newKey 25 ''m'' None) (allKeys Keyboard_autosort)"
  by code_simp

section \<open>Positions, moves and reachable layouts\<close>

subsection \<open>One position per key\<close>



subsection \<open>moveKey between any two positions\<close>


subsection \<open>Invariants of the reachable layouts\<close>

lemma Keyboard_autosort_rows:
  "map (length \<circ> keys) Keyboard_autosort = [11, 10, 7]"
  by code_simp


lemma reachable_autosort_invariant:
  "reachable_autosort kb \<Longrightarrow>
     length kb = length Keyboard_autosort \<and>
     (\<forall>m<length kb. length (keys (kb ! m)) = length (keys (Keyboard_autosort ! m))) \<and>
     mset (allKeys kb) = mset (allKeys Keyboard_autosort)"
proof (induction rule: reachable_autosort.induct)
  case init
  show ?case by simp
next
  case (press kb key)
  have len: "length Keyboard_autosort = 3"
    using arg_cong [OF Keyboard_autosort_rows, of length] by simp
  have "length (keys (Keyboard_autosort ! 0)) = 11"
    using arg_cong [OF Keyboard_autosort_rows, of "\<lambda>xs. xs ! 0"] len by simp
  moreover from press.IH len have "length (keys (kb ! 0)) = length (keys (Keyboard_autosort ! 0))"
    by simp
  ultimately have top: "keys (kb ! 0) \<noteq> []" by auto
  show ?case
  proof (cases "getKeyPos key kb")
    case None
    with press.IH show ?thesis by (simp add: sortKeys_autosort_absent)
  next
    case (Some p)
    obtain r c where "p = (r, c)" by (cases p)
    with Some have pos: "getKeyPos key kb = Some (r, c)" by simp
    from sortKeys_autosort_rows [OF pos top] obtain kb' where
      "sortKeys_autosort key kb = Normal kb'" "length kb' = length kb"
      "\<forall>m<length kb. length (keys (kb' ! m)) = length (keys (kb ! m))" by blast
    with press.IH sortKeys_autosort_mset [of key kb] show ?thesis by simp
  qed
qed

lemma reachable_autosort_top_row:
  assumes "reachable_autosort kb"
  shows "kb \<noteq> [] \<and> keys (kb ! 0) \<noteq> []"
proof -
  have len: "length Keyboard_autosort = 3"
    using arg_cong [OF Keyboard_autosort_rows, of length] by simp
  have "length (keys (Keyboard_autosort ! 0)) = 11"
    using arg_cong [OF Keyboard_autosort_rows, of "\<lambda>xs. xs ! 0"] len by simp
  moreover from reachable_autosort_invariant [OF assms] len
  have "length kb = 3" "length (keys (kb ! 0)) = length (keys (Keyboard_autosort ! 0))"
    by simp_all
  ultimately show ?thesis by auto
qed

lemma Keyboard_part000_defaults:
  "map defaultRowWidth Keyboard_part000 = [600, 550, 350, 200]"
  by code_simp

lemma Keyboard_part000_widths:
  "map rowWidth Keyboard_part000 = [600, 550, 350, 200]"
  by code_simp

lemma Keyboard_part000_key_widths:
  "\<forall>k \<in> set (allKeys Keyboard_part000). 0 < width k \<and> width k \<le> 600"
  by code_simp


lemma reachable_part000_invariant:
  "reachable_part000 kb \<Longrightarrow>
     map defaultRowWidth kb = map defaultRowWidth Keyboard_part000 \<and>
     mset (allKeys kb) = mset (allKeys Keyboard_part000) \<and>
     (\<forall>m. Suc m < length kb \<longrightarrow> rowWidth (kb ! m) \<le> defaultRowWidth (kb ! m))"
proof (induction rule: reachable_part000.induct)
  case init
  have "rowWidth (Keyboard_part000 ! m) \<le> defaultRowWidth (Keyboard_part000 ! m)"
    if "m < length Keyboard_part000" for m
  proof -
    have "map rowWidth Keyboard_part000 ! m = map defaultRowWidth Keyboard_part000 ! m"
      by (simp only: Keyboard_part000_defaults Keyboard_part000_widths)
    with that show ?thesis by simp
  qed
  then show ?case by simp
next
  case (press kb key)
  show ?case
  proof (cases "getKeyPos key kb")
    case None
    with press.IH show ?thesis by (simp add: sortKeys_part000_absent)
  next
    case (Some p)
    obtain r c where "p = (r, c)" by (cases p)
    with Some have pos: "getKeyPos key kb = Some (r, c)" by simp
    have "0 \<le> defaultRowWidth (kb ! m)" if "m < length kb" for m
    proof -
      have "map defaultRowWidth kb ! m \<in> set [600, 550, 350, 200 :: int]"
        using press.IH that Keyboard_part000_defaults by (metis length_map nth_mem)
      with that show ?thesis by auto
    qed
    then obtain kb' where res: "sortKeys_part000 key kb = Normal kb'"
      using sortKeys_part000_no_throw [OF pos] by blast
    from sortKeys_part000_Normal_within [OF res] res press.IH
      sortKeys_part000_mset [of key kb] sortKeys_part000_defaults [of key kb]
    show ?thesis by simp
  qed
qed

lemma reachable_part000_facts:
  assumes "reachable_part000 kb"
  shows "length kb = 4" "\<forall>m<length kb. 0 \<le> defaultRowWidth (kb ! m)"
    "defaultRowWidth (kb ! 0) = 600" "\<forall>k \<in> set (allKeys kb). 0 < width k \<and> width k \<le> 600"
proof -
  from reachable_part000_invariant [OF assms] Keyboard_part000_defaults
  have d: "map defaultRowWidth kb = [600, 550, 350, 200]"
    and m: "mset (allKeys kb) = mset (allKeys Keyboard_part000)" by simp_all
  from arg_cong [OF d, of length] show len: "length kb = 4" by simp
  show "\<forall>m<length kb. 0 \<le> defaultRowWidth (kb ! m)"
  proof (intro allI impI)
    fix m assume "m < length kb"
    then have "map defaultRowWidth kb ! m \<in> set [600, 550, 350, 200 :: int]"
      using d by (metis length_map nth_mem)
    with \<open>m < length kb\<close> show "0 \<le> defaultRowWidth (kb ! m)" by auto
  qed
  from arg_cong [OF d, of "\<lambda>xs. xs ! 0"] len show "defaultRowWidth (kb ! 0) = 600" by simp
  from m have "set (allKeys kb) = set (allKeys Keyboard_part000)" by (rule mset_eq_setD)
  with Keyboard_part000_key_widths show "\<forall>k \<in> set (allKeys kb). 0 < width k \<and> width k \<le> 600"
    by simp
qed

section \<open>Promotion to the top left\<close>

text \<open>
  C1: in every layout reachable from the keyboard of either file, a press of a key of the
  layout returns, and afterwards \<^verbatim>\<open>getKeyPos\<close> finds the pressed key at row 0, column 0,
  whatever row it was in before.
\<close>

theorem sortKeys_promotes_pressed_key:
  "(reachable_autosort kb \<and> key \<in> set (allKeys kb) \<longrightarrow>
      (\<exists>kb'. sortKeys_autosort key kb = Normal kb' \<and> getKeyPos key kb' = Some (0, 0))) \<and>
   (reachable_part000 kbw \<and> key \<in> set (allKeys kbw) \<longrightarrow>
      (\<exists>kb'. sortKeys_part000 key kbw = Normal kb' \<and> getKeyPos key kb' = Some (0, 0)))"
proof (intro conjI impI)
  assume a: "reachable_autosort kb \<and> key \<in> set (allKeys kb)"
  then obtain p where "getKeyPos key kb = Some p"
    using getKeyPos_None_iff [of key kb] by auto
  then obtain r c where pos: "getKeyPos key kb = Some (r, c)" by (cases p) auto
  from a reachable_autosort_top_row have top: "keys (kb ! 0) \<noteq> []" and ne: "kb \<noteq> []" by auto
  from sortKeys_autosort_rows [OF pos top] obtain kb' rest where
    res: "sortKeys_autosort key kb = Normal kb'" and len: "length kb' = length kb"
    and hd: "keys (kb' ! 0) = key # rest" by blast
  from len ne have "kb' \<noteq> []" by auto
  from getKeyPos_head [OF this hd] res
  show "\<exists>kb'. sortKeys_autosort key kb = Normal kb' \<and> getKeyPos key kb' = Some (0, 0)" by simp
next
  assume a: "reachable_part000 kbw \<and> key \<in> set (allKeys kbw)"
  then obtain p where "getKeyPos key kbw = Some p"
    using getKeyPos_None_iff [of key kbw] by auto
  then obtain r c where pos: "getKeyPos key kbw = Some (r, c)" by (cases p) auto
  from a have reach: "reachable_part000 kbw" and mem: "key \<in> set (allKeys kbw)" by simp_all
  from reachable_part000_facts(4) [OF reach] mem reachable_part000_facts(3) [OF reach]
  have fits: "width key \<le> defaultRowWidth (kbw ! 0)" by simp
  from sortKeys_part000_no_throw [OF pos reachable_part000_facts(2) [OF reach]]
  obtain kb' where res: "sortKeys_part000 key kbw = Normal kb'" by blast
  from sortKeys_part000_keeps_head [OF pos fits] res
  obtain rest where hd: "keys (kb' ! 0) = key # rest" by auto
  have "length kb' = length kbw" using sortKeys_part000_length [of key kbw] res by simp
  with reachable_part000_facts(1) [OF reach] have "kb' \<noteq> []" by auto
  from getKeyPos_head [OF this hd] res
  show "\<exists>kb'. sortKeys_part000 key kbw = Normal kb' \<and> getKeyPos key kb' = Some (0, 0)" by simp
qed

theorem sortKeys_promotes_pressed_key_witness:
  "reachable_autosort Keyboard_autosort \<and>
   newKey 25 ''m'' None \<in> set (allKeys Keyboard_autosort) \<and>
   (\<exists>kb'. sortKeys_autosort (newKey 25 ''m'' None) Keyboard_autosort = Normal kb' \<and>
          getKeyPos (newKey 25 ''m'' None) kb' = Some (0, 0)) \<and>
   reachable_part000 Keyboard_part000 \<and>
   newKey 28 spacebarLabel (Some SPACEBAR_WIDTH) \<in> set (allKeys Keyboard_part000) \<and>
   (\<exists>kb'. sortKeys_part000 (newKey 28 spacebarLabel (Some SPACEBAR_WIDTH)) Keyboard_part000 = Normal kb' \<and>
          getKeyPos (newKey 28 spacebarLabel (Some SPACEBAR_WIDTH)) kb' = Some (0, 0))"
proof -
  have a: "newKey 25 ''m'' None \<in> set (allKeys Keyboard_autosort)"
    by code_simp
  have b: "newKey 28 spacebarLabel (Some SPACEBAR_WIDTH) \<in> set (allKeys Keyboard_part000)"
    by code_simp
  from a reachable_autosort.init
    sortKeys_promotes_pressed_key [of Keyboard_autosort "newKey 25 ''m'' None" Keyboard_part000,
      THEN conjunct1]
  have 1: "\<exists>kb'. sortKeys_autosort (newKey 25 ''m'' None) Keyboard_autosort = Normal kb' \<and>
          getKeyPos (newKey 25 ''m'' None) kb' = Some (0, 0)" by simp
  from b reachable_part000.init
    sortKeys_promotes_pressed_key [of Keyboard_autosort "newKey 28 spacebarLabel (Some SPACEBAR_WIDTH)"
      Keyboard_part000, THEN conjunct2]
  have 2: "\<exists>kb'. sortKeys_part000 (newKey 28 spacebarLabel (Some SPACEBAR_WIDTH)) Keyboard_part000 = Normal kb' \<and>
          getKeyPos (newKey 28 spacebarLabel (Some SPACEBAR_WIDTH)) kb' = Some (0, 0)" by simp
  from a b 1 2 reachable_autosort.init reachable_part000.init show ?thesis by simp
qed

text \<open>
  C5: pressing the key that \<^verbatim>\<open>getKeyPos\<close> finds at (0, 0) returns and leaves every row
  as it was: in \<^verbatim>\<open>autosort.js\<close> for any layout, in the second file for every reachable
  layout (where each row but the last is within its default width).
\<close>

theorem sortKeys_top_left_key_noop:
  "(getKeyPos key kb = Some (0, 0) \<longrightarrow> sortKeys_autosort key kb = Normal kb) \<and>
   (reachable_part000 kbw \<and> getKeyPos key kbw = Some (0, 0) \<longrightarrow>
      sortKeys_part000 key kbw = Normal kbw)"
proof (intro conjI impI)
  assume pos: "getKeyPos key kb = Some (0, 0)"
  from getKeyPos_Some [OF pos] have "kb \<noteq> []" "keys (kb ! 0) \<noteq> []" by auto
  then have "promote 0 0 kb = kb" by (rule promote_top_left)
  with sortKeys_autosort_present [OF pos] show "sortKeys_autosort key kb = Normal kb"
    by (simp add: shedRowsAbove_def)
next
  assume a: "reachable_part000 kbw \<and> getKeyPos key kbw = Some (0, 0)"
  then have pos: "getKeyPos key kbw = Some (0, 0)" and reach: "reachable_part000 kbw" by simp_all
  from getKeyPos_Some [OF pos] have "kbw \<noteq> []" "keys (kbw ! 0) \<noteq> []" by auto
  then have "promote 0 0 kbw = kbw" by (rule promote_top_left)
  with sortKeys_part000_present [OF pos] have "sortKeys_part000 key kbw = reflow 0 kbw" by simp
  moreover have "reflow 0 kbw = Normal kbw"
    using reachable_part000_invariant [OF reach] by (intro reflow_within_noop) simp
  ultimately show "sortKeys_part000 key kbw = Normal kbw" by simp
qed

theorem sortKeys_top_left_key_noop_witness:
  "getKeyPos (newKey 25 ''m'' None)
     (stateOf (sortKeys_autosort (newKey 25 ''m'' None) Keyboard_autosort)) = Some (0, 0) \<and>
   sortKeys_autosort (newKey 25 ''m'' None)
     (stateOf (sortKeys_autosort (newKey 25 ''m'' None) Keyboard_autosort))
     = Normal (stateOf (sortKeys_autosort (newKey 25 ''m'' None) Keyboard_autosort)) \<and>
   reachable_part000 (stateOf (sortKeys_part000 (newKey 25 ''m'' None) Keyboard_part000)) \<and>
   getKeyPos (newKey 25 ''m'' None)
     (stateOf (sortKeys_part000 (newKey 25 ''m'' None) Keyboard_part000)) = Some (0, 0) \<and>
   sortKeys_part000 (newKey 25 ''m'' None)
     (stateOf (sortKeys_part000 (newKey 25 ''m'' None) Keyboard_part000))
     = Normal (stateOf (sortKeys_part000 (newKey 25 ''m'' None) Keyboard_part000))"
proof -
  have a: "getKeyPos (newKey 25 ''m'' None)
     (stateOf (sortKeys_autosort (newKey 25 ''m'' None) Keyboard_autosort)) = Some (0, 0)"
    by code_simp
  have b: "getKeyPos (newKey 25 ''m'' None)
     (stateOf (sortKeys_part000 (newKey 25 ''m'' None) Keyboard_part000)) = Some (0, 0)"
    by code_simp
  have r: "reachable_part000 (stateOf (sortKeys_part000 (newKey 25 ''m'' None) Keyboard_part000))"
    by (rule reachable_part000.press [OF reachable_part000.init])
  from a b r
    sortKeys_top_left_key_noop [of "newKey 25 ''m'' None"
      "stateOf (sortKeys_autosort (newKey 25 ''m'' None) Keyboard_autosort)"
      "stateOf (sortKeys_part000 (newKey 25 ''m'' None) Keyboard_part000)"]
  show ?thesis by simp
qed

section \<open>The partition invariant\<close>






section \<open>Width budgets after a press\<close>

lemma wideKeyRows_arise: "shedLast 0 (promote 2 0 narrowKeyboard) = wideKeyRows"
  by code_simp

text \<open>
  C3, as stated, fails in its second half: the \<^verbatim>\<open>while\<close> loop has no test for a row
  of one key. Row 0 of \<open>wideKeyRows\<close> holds the space bar alone, wider than the row's
  default width; the loop for row 0 returns, and row 0 is left with no key, not with
  one. The whole press of the space bar on \<open>narrowKeyboard\<close>, in which these rows
  arise, returns with rows 0 and 1 empty.
\<close>

theorem single_wide_key_is_shed:
  "keys (wideKeyRows ! 0) = [newKey 2 spacebarLabel (Some SPACEBAR_WIDTH)] \<and>
   defaultRowWidth (wideKeyRows ! 0) < rowWidth (wideKeyRows ! 0) \<and>
   shedRow 0 wideKeyRows =
     Normal [\<lparr>keys = [], defaultRowWidth = 50\<rparr>,
             \<lparr>keys = [newKey 2 spacebarLabel (Some SPACEBAR_WIDTH), newKey 0 ''a'' None,
                      newKey 1 ''b'' None], defaultRowWidth = 50\<rparr>,
             \<lparr>keys = [], defaultRowWidth = 200\<rparr>] \<and>
   length (keys (stateOf (shedRow 0 wideKeyRows) ! 0)) \<noteq> 1 \<and>
   sortKeys_part000 (newKey 2 spacebarLabel (Some SPACEBAR_WIDTH)) narrowKeyboard =
     Normal [\<lparr>keys = [], defaultRowWidth = 50\<rparr>,
             \<lparr>keys = [], defaultRowWidth = 50\<rparr>,
             \<lparr>keys = [newKey 2 spacebarLabel (Some SPACEBAR_WIDTH), newKey 0 ''a'' None,
                      newKey 1 ''b'' None], defaultRowWidth = 200\<rparr>]"
  by code_simp

text \<open>What the loop does with a row of one key wider than a default width that is not negative.\<close>

lemma shedRow_single_wide_key:
  assumes "Suc i < length kb" "keys (kb ! i) = [wide]" "defaultRowWidth (kb ! i) < width wide"
    "0 \<le> defaultRowWidth (kb ! i)"
  shows "shedRow i kb = Normal (shedLast i kb)" "keys (shedLast i kb ! i) = []"
    "keys (shedLast i kb ! Suc i) = wide # keys (kb ! Suc i)"
proof -
  have over: "defaultRowWidth (kb ! i) < rowWidth (kb ! i)"
    using assms(2,3) by (simp add: rowWidth_sum)
  show e: "keys (shedLast i kb ! i) = []" and "keys (shedLast i kb ! Suc i) = wide # keys (kb ! Suc i)"
    using assms(1,2) by (simp_all add: nth_shedLast)
  have "shedRow i kb = shedRow i (shedLast i kb)"
    using assms(1,2) over by (simp add: shedRow_step)
  moreover have "shedRow i (shedLast i kb) = Normal (shedLast i kb)"
    using assms(1,4) e by (simp add: shedRow_done rowWidth_sum)
  ultimately show "shedRow i kb = Normal (shedLast i kb)" by simp
qed

text \<open>
  C3, amended: whenever \<^verbatim>\<open>sortKeys\<close> of the second file returns, every row but the
  last is within its default width; it does return on every press of a key of the
  layout when no default width is negative; and on a row that holds a single key wider
  than the row's (non-negative) default width the loop returns after one move, which
  leaves the row empty and the key in front of the next row.
\<close>

theorem width_budget_after_sortKeys:
  "(sortKeys_part000 key kb = Normal kb' \<longrightarrow>
      (\<forall>m. Suc m < length kb' \<longrightarrow> rowWidth (kb' ! m) \<le> defaultRowWidth (kb' ! m))) \<and>
   (key \<in> set (allKeys kb) \<and> (\<forall>r \<in> set kb. 0 \<le> defaultRowWidth r) \<longrightarrow>
      (\<exists>s. sortKeys_part000 key kb = Normal s)) \<and>
   (Suc i < length kbd \<and> keys (kbd ! i) = [wide] \<and> defaultRowWidth (kbd ! i) < width wide \<and>
    0 \<le> defaultRowWidth (kbd ! i) \<longrightarrow>
      shedRow i kbd = Normal (shedLast i kbd) \<and> keys (shedLast i kbd ! i) = [] \<and>
      keys (shedLast i kbd ! Suc i) = wide # keys (kbd ! Suc i))"
proof (intro conjI impI)
  assume "sortKeys_part000 key kb = Normal kb'"
  then show "\<forall>m. Suc m < length kb' \<longrightarrow> rowWidth (kb' ! m) \<le> defaultRowWidth (kb' ! m)"
    by (rule sortKeys_part000_Normal_within)
next
  assume a: "key \<in> set (allKeys kb) \<and> (\<forall>r \<in> set kb. 0 \<le> defaultRowWidth r)"
  then obtain p where "getKeyPos key kb = Some p"
    using getKeyPos_None_iff [of key kb] by auto
  then obtain r c where pos: "getKeyPos key kb = Some (r, c)" by (cases p) auto
  from a have "\<forall>m<length kb. 0 \<le> defaultRowWidth (kb ! m)" by simp
  from sortKeys_part000_no_throw [OF pos this]
  show "\<exists>s. sortKeys_part000 key kb = Normal s" .
next
  assume a: "Suc i < length kbd \<and> keys (kbd ! i) = [wide] \<and> defaultRowWidth (kbd ! i) < width wide \<and>
    0 \<le> defaultRowWidth (kbd ! i)"
  then show "shedRow i kbd = Normal (shedLast i kbd)" "keys (shedLast i kbd ! i) = []"
    "keys (shedLast i kbd ! Suc i) = wide # keys (kbd ! Suc i)"
    using shedRow_single_wide_key [of i kbd wide] by simp_all
qed

theorem width_budget_after_sortKeys_witness:
  "sortKeys_part000 (newKey 2 spacebarLabel (Some SPACEBAR_WIDTH)) narrowKeyboard
     = Normal (stateOf (sortKeys_part000 (newKey 2 spacebarLabel (Some SPACEBAR_WIDTH)) narrowKeyboard)) \<and>
   rowWidth (stateOf (sortKeys_part000 (newKey 2 spacebarLabel (Some SPACEBAR_WIDTH)) narrowKeyboard) ! 0)
     \<le> defaultRowWidth
         (stateOf (sortKeys_part000 (newKey 2 spacebarLabel (Some SPACEBAR_WIDTH)) narrowKeyboard) ! 0) \<and>
   rowWidth (stateOf (sortKeys_part000 (newKey 2 spacebarLabel (Some SPACEBAR_WIDTH)) narrowKeyboard) ! 1)
     \<le> defaultRowWidth
         (stateOf (sortKeys_part000 (newKey 2 spacebarLabel (Some SPACEBAR_WIDTH)) narrowKeyboard) ! 1) \<and>
   newKey 2 spacebarLabel (Some SPACEBAR_WIDTH) \<in> set (allKeys narrowKeyboard) \<and>
   Suc 0 < length wideKeyRows \<and>
   keys (wideKeyRows ! 0) = [newKey 2 spacebarLabel (Some SPACEBAR_WIDTH)] \<and>
   defaultRowWidth (wideKeyRows ! 0) < width (newKey 2 spacebarLabel (Some SPACEBAR_WIDTH)) \<and>
   0 \<le> defaultRowWidth (wideKeyRows ! 0) \<and>
   shedRow 0 wideKeyRows = Normal (shedLast 0 wideKeyRows) \<and>
   keys (shedLast 0 wideKeyRows ! 0) = []"
proof -
  let ?s = "stateOf (sortKeys_part000 (newKey 2 spacebarLabel (Some SPACEBAR_WIDTH)) narrowKeyboard)"
  have a: "sortKeys_part000 (newKey 2 spacebarLabel (Some SPACEBAR_WIDTH)) narrowKeyboard = Normal ?s"
    by code_simp
  have b: "newKey 2 spacebarLabel (Some SPACEBAR_WIDTH) \<in> set (allKeys narrowKeyboard)"
    by code_simp
  have c: "Suc 0 < length wideKeyRows"
    "keys (wideKeyRows ! 0) = [newKey 2 spacebarLabel (Some SPACEBAR_WIDTH)]"
    "defaultRowWidth (wideKeyRows ! 0) < width (newKey 2 spacebarLabel (Some SPACEBAR_WIDTH))"
    "0 \<le> defaultRowWidth (wideKeyRows ! 0)"
    by code_simp+
  have l: "length ?s = 3"
    by code_simp
  note t = width_budget_after_sortKeys [of "newKey 2 spacebarLabel (Some SPACEBAR_WIDTH)"
      narrowKeyboard ?s 0 wideKeyRows "newKey 2 spacebarLabel (Some SPACEBAR_WIDTH)"]
  from t a have w: "\<forall>m. Suc m < length ?s \<longrightarrow> rowWidth (?s ! m) \<le> defaultRowWidth (?s ! m)"
    by blast
  from w l have w0: "rowWidth (?s ! 0) \<le> defaultRowWidth (?s ! 0)"
    and w1: "rowWidth (?s ! 1) \<le> defaultRowWidth (?s ! 1)"
    by simp_all
  from t c have d: "shedRow 0 wideKeyRows = Normal (shedLast 0 wideKeyRows)"
    "keys (shedLast 0 wideKeyRows ! 0) = []"
    by blast+
  show ?thesis
    by (intro conjI) (rule a b c d w0 w1)+
qed

section \<open>Termination and the moves of a reflow\<close>

subsection \<open>The while loop returns\<close>

lemma shedRow_while_returns: "shedRow_while i kb = Some (shedRow i kb)"
proof (induction i kb rule: shedRow.induct)
  case (1 i kb)
  show ?case
  proof (cases "arrAt kb (int i)")
    case None
    then show ?thesis
      by (subst shedRow_while.simps, subst shedRow.simps) simp
  next
    case (Some keyRow)
    show ?thesis
    proof (cases "defaultRowWidth keyRow < rowWidth keyRow")
      case False
      with Some show ?thesis
        by (subst shedRow_while.simps, subst shedRow.simps) simp
    next
      case True
      let ?n = "int (length (keys keyRow)) - 1"
      let ?m = "moveKey (arrAt (keys keyRow) ?n) (int i) ?n (int i + 1) 0 kb"
      show ?thesis
      proof (cases ?m)
        case (Throw e s)
        with Some True show ?thesis
          by (subst shedRow_while.simps, subst shedRow.simps) (simp add: Let_def)
      next
        case (Normal kb1)
        from "1.IH" [OF Some True refl refl Normal]
        have "shedRow_while i kb1 = Some (shedRow i kb1)" .
        with Some True Normal show ?thesis
          by (subst shedRow_while.simps, subst shedRow.simps) (simp add: Let_def)
      qed
    qed
  qed
qed

lemma moveKey_last_Normal:
  assumes "moveKey (arrAt (keys (kb ! i)) (int (length (keys (kb ! i))) - 1)) (int i)
             (int (length (keys (kb ! i))) - 1) (int i + 1) 0 kb = Normal kb1"
  shows "Suc i < length kb \<and> keys (kb ! i) \<noteq> [] \<and> kb1 = shedLast i kb"
proof -
  have ne: "keys (kb ! i) \<noteq> []"
  proof
    assume "keys (kb ! i) = []"
    then have "arrAt (keys (kb ! i)) (int (length (keys (kb ! i))) - 1) = None"
      by (simp add: arrAt_def)
    with assms show False by (simp add: moveKey_undefined)
  qed
  have i: "i < length kb"
    using assms by (auto simp: moveKey_def arrAt_def [of kb] split: if_splits)
  have si: "Suc i < length kb"
    using assms i ne
    by (auto simp: moveKey_def Let_def arrAt_last arrAt_nat arrAt_def [of _ "int i + 1"]
        split: if_splits)
  from moveKey_shedLast [OF si ne] assms ne show ?thesis
    using si by (simp add: arrAt_last)
qed

lemma loop_pass_narrows_row:
  assumes "\<forall>k \<in> set (allKeys kb). 0 < width k"
    and "moveKey (arrAt (keys (kb ! i)) (int (length (keys (kb ! i))) - 1)) (int i)
             (int (length (keys (kb ! i))) - 1) (int i + 1) 0 kb = Normal kb1"
  shows "rowWidth (kb1 ! i) < rowWidth (kb ! i)"
proof -
  from moveKey_last_Normal [OF assms(2)]
  have si: "Suc i < length kb" and ne: "keys (kb ! i) \<noteq> []" and kb1: "kb1 = shedLast i kb"
    by simp_all
  from ne have "last (keys (kb ! i)) \<in> set (keys (kb ! i))" by simp
  with si have "last (keys (kb ! i)) \<in> set (allKeys kb)"
    by (auto simp: in_allKeys_iff intro: exI [of _ i])
  with assms(1) have "0 < width (last (keys (kb ! i)))" by simp
  with rowWidth_shedLast_source [OF si ne] kb1 show ?thesis by simp
qed

lemma shedRow_ends:
  assumes "Suc i < length kb"
  shows "(\<exists>t. shedRow i kb = Normal t \<and> rowWidth (t ! i) \<le> defaultRowWidth (t ! i)) \<or>
         (\<exists>e t. shedRow i kb = Throw e t \<and> keys (t ! i) = [])"
  using shedRow_end [OF assms] by (cases "shedRow i kb") auto

subsection \<open>The calls of the row-count loop\<close>

lemma shuffleDown_calls_closed:
  assumes "i \<le> n" "n < length kb" "i < n \<longrightarrow> keys (kb ! i) \<noteq> []"
  shows "shuffleDown_calls i n kb =
           map (\<lambda>m. (Some (last (keys (fold shedLast [i..<m] kb ! m))), int m,
                      int (length (keys (fold shedLast [i..<m] kb ! m))) - 1, int m + 1, 0))
               [i..<n]"
proof -
  let ?call = "\<lambda>j t m. (Some (last (keys (fold shedLast [j..<m] t ! m))), int m,
                      int (length (keys (fold shedLast [j..<m] t ! m))) - 1, int m + 1, 0 :: int)"
  have "shuffleDown_calls i n kb = map (?call i kb) [i..<n]"
    using assms
  proof (induction rule: shedRange_induct [where Q = "\<lambda>j t t'. shuffleDown_calls j n t = map (?call j t) [j..<n]"])
    case (base t)
    show ?case by (simp add: shuffleDown_calls_done)
  next
    case (step j t t')
    from step assms(2) have sj: "Suc j < length t" by simp
    from step have jn: "j < n" and ne: "keys (t ! j) \<noteq> []" by simp_all
    from step have ih: "shuffleDown_calls (Suc j) n (shedLast j t) = map (?call (Suc j) (shedLast j t)) [Suc j..<n]"
      by simp
    have "map (?call (Suc j) (shedLast j t)) [Suc j..<n] = map (?call j t) [Suc j..<n]"
    proof (rule map_cong [OF refl])
      fix m assume "m \<in> set [Suc j..<n]"
      then have "j < m" by simp
      then show "?call (Suc j) (shedLast j t) m = ?call j t m"
        by (simp add: fold_shedLast_unfold)
    qed
    with ih have "shuffleDown_calls (Suc j) n (shedLast j t) = map (?call j t) [Suc j..<n]"
      by simp
    then show ?case
      using jn sj ne by (simp add: shuffleDown_calls_step upt_conv_Cons)
  qed
  then show ?thesis .
qed

lemma runCalls_shuffleDown_calls:
  assumes "i \<le> n" "n < length kb" "i < n \<longrightarrow> keys (kb ! i) \<noteq> []"
  shows "runCalls (shuffleDown_calls i n kb) kb = Normal (fold shedLast [i..<n] kb)"
  using assms
proof (induction rule: shedRange_induct [where Q = "\<lambda>j t t'. runCalls (shuffleDown_calls j n t) t = Normal t'"])
  case (base t)
  show ?case by (simp add: shuffleDown_calls_done)
next
  case (step j t t')
  from step assms(2) have sj: "Suc j < length t" by simp
  from step have jn: "j < n" and ne: "keys (t ! j) \<noteq> []" by simp_all
  from step have ih: "runCalls (shuffleDown_calls (Suc j) n (shedLast j t)) (shedLast j t) = Normal t'"
    by simp
  show ?case
    using jn sj ne ih by (simp add: shuffleDown_calls_step moveKey_shedLast)
qed

lemma shedRowsAbove_row_nonempty:
  assumes "i < n" "n < length kb" "keys (kb ! 0) \<noteq> []"
  shows "keys (shedRowsAbove i kb ! i) \<noteq> []"
proof (cases i)
  case 0
  with assms show ?thesis by (simp add: shedRowsAbove_def)
next
  case (Suc j)
  have il: "i < length kb" using assms by simp
  have "0 < i \<longrightarrow> keys (kb ! 0) \<noteq> []" using assms by simp
  from fold_shedLast_lengths [OF le0 il this] il Suc
  have "int (length (keys (fold shedLast [0..<i] kb ! i))) = int (length (keys (kb ! i))) + 1"
    by simp
  then show ?thesis by (auto simp: shedRowsAbove_def)
qed

lemma shedRowsAbove_Suc: "shedRowsAbove (Suc i) kb = shedLast i (shedRowsAbove i kb)"
  by (simp add: shedRowsAbove_def)

lemma sortKeys_autosort_calls_present:
  assumes "getKeyPos key kb = Some (oldRow, oldCol)"
  shows "sortKeys_autosort_calls key kb =
           (Some key, int oldRow, int oldCol, 0, 0) #
           map (\<lambda>i. (Some (last (keys (shedRowsAbove i (promote oldRow oldCol kb) ! i))), int i,
                      int (length (keys (shedRowsAbove i (promote oldRow oldCol kb) ! i))) - 1,
                      int i + 1, 0))
               [0..<oldRow]"
    and "runCalls (sortKeys_autosort_calls key kb) kb = sortKeys_autosort key kb"
    and "\<forall>i<oldRow. keys (shedRowsAbove i (promote oldRow oldCol kb) ! i) \<noteq> []"
proof -
  from getKeyPos_Some [OF assms] have r: "oldRow < length kb" and c: "oldCol < length (keys (kb ! oldRow))"
    and k: "keys (kb ! oldRow) ! oldCol = key" by auto
  define s0 where "s0 = promote oldRow oldCol kb"
  have mv: "moveKey (Some key) (int oldRow) (int oldCol) 0 0 kb = Normal s0"
    using moveKey_promote [OF r c] k by (simp add: s0_def)
  have r0: "oldRow < length s0" using r by (simp add: s0_def)
  have top: "keys (s0 ! 0) \<noteq> []" using r by (simp add: s0_def nth_promote)
  then have ne0: "0 < oldRow \<longrightarrow> keys (s0 ! 0) \<noteq> []" by simp
  have calls: "sortKeys_autosort_calls key kb =
      (Some key, int oldRow, int oldCol, 0, 0) # shuffleDown_calls 0 oldRow s0"
    using assms mv by (simp add: sortKeys_autosort_calls_def)
  show "sortKeys_autosort_calls key kb =
           (Some key, int oldRow, int oldCol, 0, 0) #
           map (\<lambda>i. (Some (last (keys (shedRowsAbove i (promote oldRow oldCol kb) ! i))), int i,
                      int (length (keys (shedRowsAbove i (promote oldRow oldCol kb) ! i))) - 1,
                      int i + 1, 0))
               [0..<oldRow]"
    unfolding calls shuffleDown_calls_closed [OF le0 r0 ne0]
    by (simp add: shedRowsAbove_def s0_def)
  show "runCalls (sortKeys_autosort_calls key kb) kb = sortKeys_autosort key kb"
    unfolding calls using mv runCalls_shuffleDown_calls [OF le0 r0 ne0]
      sortKeys_autosort_present [OF assms]
    by (simp add: shedRowsAbove_def s0_def)
  show "\<forall>i<oldRow. keys (shedRowsAbove i (promote oldRow oldCol kb) ! i) \<noteq> []"
    using shedRowsAbove_row_nonempty [OF _ r0 top] by (simp add: s0_def)
qed

text \<open>
  C6: for a pressed key found at (\<open>oldRow\<close>, \<open>oldCol\<close>), \<^verbatim>\<open>sortKeys\<close> of
  \<^verbatim>\<open>autosort.js\<close> issues the promoting \<^verbatim>\<open>moveKey\<close> call and then exactly \<open>oldRow\<close>
  more, one for each row \<open>i < oldRow\<close> from the top down: the call moves the key that
  is last in row \<open>i\<close> at that moment to row \<open>i + 1\<close>, column 0. Replaying the calls
  gives the result of \<^verbatim>\<open>sortKeys\<close>; row \<open>i\<close> is never empty when its turn comes, it
  loses its last key and row \<open>i + 1\<close> receives that key in front.
\<close>

theorem row_count_reflow_moves:
  "getKeyPos key kb = Some (oldRow, oldCol) \<longrightarrow>
     sortKeys_autosort_calls key kb =
       (Some key, int oldRow, int oldCol, 0, 0) #
       map (\<lambda>i. (Some (last (keys (shedRowsAbove i (promote oldRow oldCol kb) ! i))), int i,
                  int (length (keys (shedRowsAbove i (promote oldRow oldCol kb) ! i))) - 1,
                  int i + 1, 0))
           [0..<oldRow] \<and>
     length (sortKeys_autosort_calls key kb) = Suc oldRow \<and>
     runCalls (sortKeys_autosort_calls key kb) kb = sortKeys_autosort key kb \<and>
     sortKeys_autosort key kb = Normal (shedRowsAbove oldRow (promote oldRow oldCol kb)) \<and>
     (\<forall>i<oldRow.
        keys (shedRowsAbove i (promote oldRow oldCol kb) ! i) \<noteq> [] \<and>
        keys (shedRowsAbove (Suc i) (promote oldRow oldCol kb) ! i) =
          butlast (keys (shedRowsAbove i (promote oldRow oldCol kb) ! i)) \<and>
        keys (shedRowsAbove (Suc i) (promote oldRow oldCol kb) ! Suc i) =
          last (keys (shedRowsAbove i (promote oldRow oldCol kb) ! i)) #
          keys (shedRowsAbove i (promote oldRow oldCol kb) ! Suc i))"
proof
  assume pos: "getKeyPos key kb = Some (oldRow, oldCol)"
  note calls = sortKeys_autosort_calls_present [OF pos]
  from getKeyPos_Some [OF pos] have r: "oldRow < length kb" by simp
  have len: "length (sortKeys_autosort_calls key kb) = Suc oldRow"
    unfolding calls(1) by simp
  have rows: "keys (shedRowsAbove (Suc i) (promote oldRow oldCol kb) ! i) =
          butlast (keys (shedRowsAbove i (promote oldRow oldCol kb) ! i)) \<and>
        keys (shedRowsAbove (Suc i) (promote oldRow oldCol kb) ! Suc i) =
          last (keys (shedRowsAbove i (promote oldRow oldCol kb) ! i)) #
          keys (shedRowsAbove i (promote oldRow oldCol kb) ! Suc i)" if "i < oldRow" for i
  proof -
    have "Suc i < length (shedRowsAbove i (promote oldRow oldCol kb))"
      using that r by (simp add: shedRowsAbove_def)
    then show ?thesis
      unfolding shedRowsAbove_Suc by (simp add: nth_shedLast)
  qed
  from calls len rows sortKeys_autosort_present [OF pos]
  show "sortKeys_autosort_calls key kb =
       (Some key, int oldRow, int oldCol, 0, 0) #
       map (\<lambda>i. (Some (last (keys (shedRowsAbove i (promote oldRow oldCol kb) ! i))), int i,
                  int (length (keys (shedRowsAbove i (promote oldRow oldCol kb) ! i))) - 1,
                  int i + 1, 0))
           [0..<oldRow] \<and>
     length (sortKeys_autosort_calls key kb) = Suc oldRow \<and>
     runCalls (sortKeys_autosort_calls key kb) kb = sortKeys_autosort key kb \<and>
     sortKeys_autosort key kb = Normal (shedRowsAbove oldRow (promote oldRow oldCol kb)) \<and>
     (\<forall>i<oldRow.
        keys (shedRowsAbove i (promote oldRow oldCol kb) ! i) \<noteq> [] \<and>
        keys (shedRowsAbove (Suc i) (promote oldRow oldCol kb) ! i) =
          butlast (keys (shedRowsAbove i (promote oldRow oldCol kb) ! i)) \<and>
        keys (shedRowsAbove (Suc i) (promote oldRow oldCol kb) ! Suc i) =
          last (keys (shedRowsAbove i (promote oldRow oldCol kb) ! i)) #
          keys (shedRowsAbove i (promote oldRow oldCol kb) ! Suc i))"
    by simp
qed

theorem row_count_reflow_moves_witness:
  "getKeyPos (newKey 25 ''m'' None) Keyboard_autosort = Some (2, 6) \<and>
   length (sortKeys_autosort_calls (newKey 25 ''m'' None) Keyboard_autosort) = 3 \<and>
   sortKeys_autosort_calls (newKey 25 ''m'' None) Keyboard_autosort =
     [(Some (newKey 25 ''m'' None), 2, 6, 0, 0),
      (Some (newKey 26 backspaceLabel (Some BACKSPACE_WIDTH_autosort)), 0, 11, 1, 0),
      (Some (newKey 27 enterLabel (Some ENTER_WIDTH_autosort)), 1, 10, 2, 0)] \<and>
   runCalls (sortKeys_autosort_calls (newKey 25 ''m'' None) Keyboard_autosort) Keyboard_autosort
     = sortKeys_autosort (newKey 25 ''m'' None) Keyboard_autosort"
proof -
  have a: "getKeyPos (newKey 25 ''m'' None) Keyboard_autosort = Some (2, 6)"
    by code_simp
  have b: "sortKeys_autosort_calls (newKey 25 ''m'' None) Keyboard_autosort =
     [(Some (newKey 25 ''m'' None), 2, 6, 0, 0),
      (Some (newKey 26 backspaceLabel (Some BACKSPACE_WIDTH_autosort)), 0, 11, 1, 0),
      (Some (newKey 27 enterLabel (Some ENTER_WIDTH_autosort)), 1, 10, 2, 0)]"
    by code_simp
  note t = row_count_reflow_moves [of "newKey 25 ''m'' None" Keyboard_autosort 2 6, THEN mp, OF a]
  from t [THEN conjunct2, THEN conjunct1]
  have l: "length (sortKeys_autosort_calls (newKey 25 ''m'' None) Keyboard_autosort) = 3"
    by simp
  note r = t [THEN conjunct2, THEN conjunct2, THEN conjunct1]
  show ?thesis
    by (intro conjI) (rule a l b r)+
qed

text \<open>
  C7: both reflows terminate. The \<^verbatim>\<open>while\<close> loop of the second file, written without
  a termination argument, returns on every layout and row: what \<open>shedRow\<close> computes.
  When all key widths are positive, a pass of the loop that returns leaves the row
  strictly narrower; a loop for a row above the last ends with the row within its
  default width or empty. \<^verbatim>\<open>sortKeys\<close> of the second file returns on a key of the
  layout when no default width is negative. \<^verbatim>\<open>sortKeys\<close> of \<^verbatim>\<open>autosort.js\<close>
  returns on every key of the layout, after the promoting call and exactly \<open>oldRow\<close>
  further \<^verbatim>\<open>moveKey\<close> calls.
\<close>

theorem reflows_terminate:
  "shedRow_while i kb = Some (shedRow i kb) \<and>
   ((\<forall>k \<in> set (allKeys kb). 0 < width k) \<and>
    moveKey (arrAt (keys (kb ! i)) (int (length (keys (kb ! i))) - 1)) (int i)
      (int (length (keys (kb ! i))) - 1) (int i + 1) 0 kb = Normal kb1 \<longrightarrow>
      rowWidth (kb1 ! i) < rowWidth (kb ! i)) \<and>
   (Suc i < length kb \<longrightarrow>
      (\<exists>t. shedRow i kb = Normal t \<and> rowWidth (t ! i) \<le> defaultRowWidth (t ! i)) \<or>
      (\<exists>e t. shedRow i kb = Throw e t \<and> keys (t ! i) = [])) \<and>
   (key \<in> set (allKeys kp) \<and> (\<forall>r \<in> set kp. 0 \<le> defaultRowWidth r) \<longrightarrow>
      (\<exists>s. sortKeys_part000 key kp = Normal s)) \<and>
   (getKeyPos key ka = Some (oldRow, oldCol) \<longrightarrow>
      length (sortKeys_autosort_calls key ka) = Suc oldRow \<and>
      runCalls (sortKeys_autosort_calls key ka) ka = sortKeys_autosort key ka \<and>
      (\<exists>s. sortKeys_autosort key ka = Normal s))"
proof (intro conjI impI)
  show "shedRow_while i kb = Some (shedRow i kb)"
    by (rule shedRow_while_returns)
next
  assume "(\<forall>k \<in> set (allKeys kb). 0 < width k) \<and>
    moveKey (arrAt (keys (kb ! i)) (int (length (keys (kb ! i))) - 1)) (int i)
      (int (length (keys (kb ! i))) - 1) (int i + 1) 0 kb = Normal kb1"
  then show "rowWidth (kb1 ! i) < rowWidth (kb ! i)"
    using loop_pass_narrows_row [of kb i kb1] by simp
next
  assume "Suc i < length kb"
  then show "(\<exists>t. shedRow i kb = Normal t \<and> rowWidth (t ! i) \<le> defaultRowWidth (t ! i)) \<or>
      (\<exists>e t. shedRow i kb = Throw e t \<and> keys (t ! i) = [])"
    by (rule shedRow_ends)
next
  assume a: "key \<in> set (allKeys kp) \<and> (\<forall>r \<in> set kp. 0 \<le> defaultRowWidth r)"
  then obtain p where "getKeyPos key kp = Some p"
    using getKeyPos_None_iff [of key kp] by auto
  then obtain r c where pos: "getKeyPos key kp = Some (r, c)" by (cases p) auto
  from a have "\<forall>m<length kp. 0 \<le> defaultRowWidth (kp ! m)" by simp
  from sortKeys_part000_no_throw [OF pos this]
  show "\<exists>s. sortKeys_part000 key kp = Normal s" .
next
  assume pos: "getKeyPos key ka = Some (oldRow, oldCol)"
  note calls = sortKeys_autosort_calls_present [OF pos]
  show "length (sortKeys_autosort_calls key ka) = Suc oldRow"
    unfolding calls(1) by simp
  show "runCalls (sortKeys_autosort_calls key ka) ka = sortKeys_autosort key ka"
    by (rule calls(2))
  show "\<exists>s. sortKeys_autosort key ka = Normal s"
    using sortKeys_autosort_present [OF pos] by simp
qed

theorem reflows_terminate_witness:
  "moveKey (arrAt (keys (promote 2 6 Keyboard_part000 ! 0))
              (int (length (keys (promote 2 6 Keyboard_part000 ! 0))) - 1)) (int 0)
      (int (length (keys (promote 2 6 Keyboard_part000 ! 0))) - 1) (int 0 + 1) 0
      (promote 2 6 Keyboard_part000) = Normal (shedLast 0 (promote 2 6 Keyboard_part000)) \<and>
   Suc 0 < length (promote 2 6 Keyboard_part000) \<and>
   newKey 25 ''m'' None \<in> set (allKeys Keyboard_part000) \<and>
   getKeyPos (newKey 25 ''m'' None) Keyboard_autosort = Some (2, 6) \<and>
   shedRow_while 0 (promote 2 6 Keyboard_part000) = Some (shedRow 0 (promote 2 6 Keyboard_part000)) \<and>
   rowWidth (shedLast 0 (promote 2 6 Keyboard_part000) ! 0) < rowWidth (promote 2 6 Keyboard_part000 ! 0) \<and>
   (\<exists>s. sortKeys_part000 (newKey 25 ''m'' None) Keyboard_part000 = Normal s) \<and>
   length (sortKeys_autosort_calls (newKey 25 ''m'' None) Keyboard_autosort) = Suc 2 \<and>
   (\<exists>s. sortKeys_autosort (newKey 25 ''m'' None) Keyboard_autosort = Normal s)"
proof -
  have a: "\<forall>k \<in> set (allKeys (promote 2 6 Keyboard_part000)). 0 < width k"
    by code_simp
  have b: "moveKey (arrAt (keys (promote 2 6 Keyboard_part000 ! 0))
              (int (length (keys (promote 2 6 Keyboard_part000 ! 0))) - 1)) (int 0)
      (int (length (keys (promote 2 6 Keyboard_part000 ! 0))) - 1) (int 0 + 1) 0
      (promote 2 6 Keyboard_part000) = Normal (shedLast 0 (promote 2 6 Keyboard_part000))"
    by code_simp
  have c: "Suc 0 < length (promote 2 6 Keyboard_part000)"
    by code_simp
  have d: "newKey 25 ''m'' None \<in> set (allKeys Keyboard_part000)"
    by code_simp
  have d': "\<forall>r \<in> set Keyboard_part000. 0 \<le> defaultRowWidth r"
    by code_simp
  have e: "getKeyPos (newKey 25 ''m'' None) Keyboard_autosort = Some (2, 6)"
    by code_simp
  note t = reflows_terminate [of 0 "promote 2 6 Keyboard_part000"
      "shedLast 0 (promote 2 6 Keyboard_part000)" "newKey 25 ''m'' None" Keyboard_part000
      Keyboard_autosort 2 6]
  from t have 1: "shedRow_while 0 (promote 2 6 Keyboard_part000) = Some (shedRow 0 (promote 2 6 Keyboard_part000))"
    by (rule conjunct1)
  from t a b have 2: "rowWidth (shedLast 0 (promote 2 6 Keyboard_part000) ! 0) < rowWidth (promote 2 6 Keyboard_part000 ! 0)"
    by blast
  from t d d' have 3: "\<exists>s. sortKeys_part000 (newKey 25 ''m'' None) Keyboard_part000 = Normal s"
    by blast
  from t e have 4: "length (sortKeys_autosort_calls (newKey 25 ''m'' None) Keyboard_autosort) = Suc 2"
    "\<exists>s. sortKeys_autosort (newKey 25 ''m'' None) Keyboard_autosort = Normal s"
    by blast+
  show ?thesis
    by (intro conjI) (rule b c d e 1 2 3 4)+
qed

section \<open>Keys of one width: the two reflows agree\<close>

lemma sum_width_remove_nth:
  "c < length ks \<Longrightarrow>
   sum_list (map width (take c ks)) + sum_list (map width (drop (Suc c) ks))
     = sum_list (map width ks) - width (ks ! c)"
proof -
  assume "c < length ks"
  then have "ks = take c ks @ ks ! c # drop (Suc c) ks" by (rule id_take_nth_drop)
  then have "sum_list (map width ks) = sum_list (map width (take c ks @ ks ! c # drop (Suc c) ks))"
    by simp
  then show ?thesis by simp
qed

lemma rowWidth_promote:
  assumes "r < length kb" "c < length (keys (kb ! r))" "m < length kb"
  shows "rowWidth (promote r c kb ! m) =
           rowWidth (kb ! m) + (if m = 0 then width (keys (kb ! r) ! c) else 0)
                             - (if m = r then width (keys (kb ! r) ! c) else 0)"
  using assms by (auto simp: nth_promote rowWidth_sum sum_width_remove_nth)

lemma keys_promote_subset:
  assumes "r < length kb" "c < length (keys (kb ! r))" "m < length kb"
  shows "set (keys (promote r c kb ! m)) \<subseteq> set (allKeys kb)"
proof
  fix k assume k: "k \<in> set (keys (promote r c kb ! m))"
  have sub: "x \<in> set (keys (kb ! j)) \<Longrightarrow> j < length kb \<Longrightarrow> x \<in> set (allKeys kb)" for x j
    by (auto simp: in_allKeys_iff)
  have kr: "keys (kb ! r) ! c \<in> set (allKeys kb)"
    using sub [of "keys (kb ! r) ! c" r] assms(1,2) by simp
  have rest: "x \<in> set (take c (keys (kb ! r)) @ drop (Suc c) (keys (kb ! r))) \<Longrightarrow>
              x \<in> set (allKeys kb)" for x
    using sub [of x r] assms(1) by (auto dest: in_set_takeD in_set_dropD)
  consider "m = 0" "r = 0" | "m = 0" "r \<noteq> 0" | "m \<noteq> 0" "m = r" | "m \<noteq> 0" "m \<noteq> r"
    by blast
  then show "k \<in> set (allKeys kb)"
  proof cases
    case 1
    with k assms(1) have "k = keys (kb ! r) ! c \<or>
        k \<in> set (take c (keys (kb ! r)) @ drop (Suc c) (keys (kb ! r)))"
      by (simp add: nth_promote)
    with kr rest show ?thesis by blast
  next
    case 2
    with k assms(1) have "k = keys (kb ! r) ! c \<or> k \<in> set (keys (kb ! 0))"
      by (simp add: nth_promote)
    with kr sub [of k 0] assms(3) 2 show ?thesis by auto
  next
    case 3
    with k assms(1) have "k \<in> set (take c (keys (kb ! r)) @ drop (Suc c) (keys (kb ! r)))"
      by (simp add: nth_promote)
    with rest show ?thesis by blast
  next
    case 4
    with k assms(1) have "k \<in> set (keys (kb ! m))"
      by (simp add: nth_promote)
    with sub assms(3) show ?thesis by blast
  qed
qed

lemma keys_shedLast_subset:
  assumes "Suc i < length kb" "keys (kb ! i) \<noteq> []" "m < length kb"
    and "\<forall>j<length kb. \<forall>k \<in> set (keys (kb ! j)). P k"
  shows "\<forall>k \<in> set (keys (shedLast i kb ! m)). P k"
proof
  fix k assume k: "k \<in> set (keys (shedLast i kb ! m))"
  have i: "i < length kb" using assms(1) by simp
  from assms(4) i have rowi: "\<forall>x \<in> set (keys (kb ! i)). P x" by simp
  from assms(4) assms(1) have rows: "\<forall>x \<in> set (keys (kb ! Suc i)). P x" by simp
  from assms(4) assms(3) have rowm: "\<forall>x \<in> set (keys (kb ! m)). P x" by simp
  have l: "P (last (keys (kb ! i)))"
    using rowi assms(2) by simp
  consider "m = Suc i" | "m = i" | "m \<noteq> i" "m \<noteq> Suc i" by blast
  then show "P k"
  proof cases
    case 1
    with k assms(1) l rows show ?thesis by (auto simp: nth_shedLast)
  next
    case 2
    with k assms(1) have "k \<in> set (butlast (keys (kb ! i)))" by (simp add: nth_shedLast)
    then have "k \<in> set (keys (kb ! i))" by (rule in_set_butlastD)
    with rowi show ?thesis by simp
  next
    case 3
    with k assms(1) rowm show ?thesis by (simp add: nth_shedLast)
  qed
qed

lemma uniform_reflow:
  assumes w: "0 < w" and n: "n < length kb" and i: "i \<le> n"
    and widths: "\<forall>m<length kb. \<forall>k \<in> set (keys (kb ! m)). width k = w"
    and budget: "\<forall>m<length kb. rowWidth (kb ! m) =
        defaultRowWidth (kb ! m) + (if i < n \<and> m = i then w else 0) - (if i < n \<and> m = n then w else 0)"
    and nonneg: "\<forall>m<length kb. 0 \<le> defaultRowWidth (kb ! m)"
  shows "reflow i kb = Normal (fold shedLast [i..<n] kb) \<and>
         (\<forall>m<length kb. rowWidth (fold shedLast [i..<n] kb ! m)
                          = defaultRowWidth (fold shedLast [i..<n] kb ! m))"
proof -
  let ?J = "\<lambda>j t. (\<forall>m<length kb. \<forall>k \<in> set (keys (t ! m)). width k = w) \<and>
      (\<forall>m<length kb. rowWidth (t ! m) =
        defaultRowWidth (t ! m) + (if j < n \<and> m = j then w else 0) - (if j < n \<and> m = n then w else 0)) \<and>
      (\<forall>m<length kb. 0 \<le> defaultRowWidth (t ! m))"
  let ?Q = "\<lambda>j t t'. ?J j t \<longrightarrow> reflow j t = Normal t' \<and>
      (\<forall>m<length kb. rowWidth (t' ! m) = defaultRowWidth (t' ! m))"
  have ne: "i < n \<longrightarrow> keys (kb ! i) \<noteq> []"
  proof
    assume "i < n"
    with n have il: "i < length kb" by simp
    from budget il \<open>i < n\<close> have "rowWidth (kb ! i) = defaultRowWidth (kb ! i) + w" by simp
    moreover from nonneg il have "0 \<le> defaultRowWidth (kb ! i)" by simp
    ultimately have "0 < rowWidth (kb ! i)" using w by simp
    then show "keys (kb ! i) \<noteq> []" by (auto simp: rowWidth_sum)
  qed
  from i n ne have "?Q i kb (fold shedLast [i..<n] kb)"
  proof (induction rule: shedRange_induct [where Q = ?Q])
    case (base t)
    show ?case
    proof
      assume J: "?J n t"
      then have all: "\<forall>m<length kb. rowWidth (t ! m) = defaultRowWidth (t ! m)" by simp
      then have "\<forall>m. n \<le> m \<and> Suc m < length t \<longrightarrow> rowWidth (t ! m) \<le> defaultRowWidth (t ! m)"
        using base by simp
      then have "reflow n t = Normal t" by (rule reflow_within_noop)
      with all show "reflow n t = Normal t \<and> (\<forall>m<length kb. rowWidth (t ! m) = defaultRowWidth (t ! m))"
        by simp
    qed
  next
    case (step j t t')
    from step have jn: "j < n" and len: "length t = length kb" and nej: "keys (t ! j) \<noteq> []" by simp_all
    from jn n len have sj: "Suc j < length t" by simp
    from step have ih: "?Q (Suc j) (shedLast j t) t'" by simp
    show ?case
    proof
      assume J: "?J j t"
      then have Jw: "\<forall>m<length kb. \<forall>k \<in> set (keys (t ! m)). width k = w"
        and Jb: "\<forall>m<length kb. rowWidth (t ! m) =
          defaultRowWidth (t ! m) + (if j < n \<and> m = j then w else 0) - (if j < n \<and> m = n then w else 0)"
        and Jn: "\<forall>m<length kb. 0 \<le> defaultRowWidth (t ! m)" by simp_all
      have jl: "j < length kb" using sj len by simp
      from Jb jl jn have bj: "rowWidth (t ! j) = defaultRowWidth (t ! j) + w" by simp
      with w have over: "defaultRowWidth (t ! j) < rowWidth (t ! j)" by simp
      have lw: "width (last (keys (t ! j))) = w"
        using Jw jl nej by (metis last_in_set)
      have src: "rowWidth (shedLast j t ! j) = defaultRowWidth (t ! j)"
        using rowWidth_shedLast_source [OF sj nej] bj lw by simp
      have tgt: "rowWidth (shedLast j t ! Suc j) = rowWidth (t ! Suc j) + w"
        using rowWidth_shedLast_target [OF sj] lw by simp
      have "shedRow j t = shedRow j (shedLast j t)"
        using sj over nej by (rule shedRow_step)
      moreover have "shedRow j (shedLast j t) = Normal (shedLast j t)"
        using sj src by (simp add: shedRow_done)
      ultimately have "reflow j t = reflow (Suc j) (shedLast j t)"
        using sj by (simp add: reflow_step)
      moreover have "?J (Suc j) (shedLast j t)"
      proof (intro conjI allI impI)
        fix m assume m: "m < length kb"
        show "\<forall>k \<in> set (keys (shedLast j t ! m)). width k = w"
          using keys_shedLast_subset [OF sj nej, of m "\<lambda>k. width k = w"] m len Jw by simp
        show "0 \<le> defaultRowWidth (shedLast j t ! m)"
          using Jn m len by simp
        have d: "defaultRowWidth (shedLast j t ! m) = defaultRowWidth (t ! m)"
          using m len by simp
        consider "m = j" | "m = Suc j" | "m \<noteq> j" "m \<noteq> Suc j" by blast
        then show "rowWidth (shedLast j t ! m) =
          defaultRowWidth (shedLast j t ! m) + (if Suc j < n \<and> m = Suc j then w else 0)
            - (if Suc j < n \<and> m = n then w else 0)"
        proof cases
          case 1
          with src d jn show ?thesis by simp
        next
          case 2
          from Jb m 2 jn have "rowWidth (t ! Suc j) =
            defaultRowWidth (t ! Suc j) - (if Suc j = n then w else 0)" by simp
          with tgt d 2 jn show ?thesis by auto
        next
          case 3
          then have "rowWidth (shedLast j t ! m) = rowWidth (t ! m)"
            using sj by (simp add: nth_shedLast)
          moreover from Jb m 3 jn have "rowWidth (t ! m) =
            defaultRowWidth (t ! m) - (if m = n then w else 0)" by simp
          moreover have "m = n \<Longrightarrow> Suc j < n" using 3 jn by simp
          ultimately show ?thesis using d 3 by auto
        qed
      qed
      ultimately show "reflow j t = Normal t' \<and>
          (\<forall>m<length kb. rowWidth (t' ! m) = defaultRowWidth (t' ! m))"
        using ih by simp
    qed
  qed
  with widths budget nonneg show ?thesis by simp
qed

lemma uniform_policies_agree:
  assumes w: "0 < w" and widths: "\<forall>k \<in> set (allKeys kb). width k = w"
    and budget: "\<forall>r \<in> set kb. defaultRowWidth r = rowWidth r"
    and pos: "getKeyPos key kb = Some (r, c)"
  shows "sortKeys_part000 key kb = sortKeys_autosort key kb"
    and "\<forall>row \<in> set (stateOf (sortKeys_part000 key kb)). defaultRowWidth row = rowWidth row"
proof -
  from getKeyPos_Some [OF pos] have r: "r < length kb" and c: "c < length (keys (kb ! r))"
    and k: "keys (kb ! r) ! c = key" by auto
  define s0 where "s0 = promote r c kb"
  have len: "length s0 = length kb" by (simp add: s0_def)
  have "key \<in> set (keys (kb ! r))" using c k nth_mem by blast
  with r have "key \<in> set (allKeys kb)" by (auto simp: in_allKeys_iff)
  with widths have kw: "width key = w" by simp
  have bw: "defaultRowWidth (kb ! m) = rowWidth (kb ! m)" if "m < length kb" for m
    using budget that by simp
  have roww: "\<forall>k \<in> set (keys (kb ! m)). width k = w" if "m < length kb" for m
    using widths that by (auto simp: in_allKeys_iff)
  have nn: "0 \<le> defaultRowWidth (kb ! m)" if "m < length kb" for m
  proof -
    have "0 \<le> sum_list (map width (keys (kb ! m)))"
      using roww [OF that] w by (intro sum_list_nonneg) auto
    with bw [OF that] show ?thesis by (simp add: rowWidth_sum)
  qed
  have J1: "\<forall>m<length s0. \<forall>k \<in> set (keys (s0 ! m)). width k = w"
  proof (intro allI impI ballI)
    fix m k assume "m < length s0" and kin: "k \<in> set (keys (s0 ! m))"
    then have "m < length kb" using len by simp
    from keys_promote_subset [OF r c this] kin have "k \<in> set (allKeys kb)"
      by (auto simp: s0_def)
    with widths show "width k = w" by simp
  qed
  have J2: "\<forall>m<length s0. rowWidth (s0 ! m) =
      defaultRowWidth (s0 ! m) + (if 0 < r \<and> m = 0 then w else 0) - (if 0 < r \<and> m = r then w else 0)"
  proof (intro allI impI)
    fix m assume "m < length s0"
    then have m: "m < length kb" using len by simp
    from rowWidth_promote [OF r c m] k kw bw [OF m] m
    show "rowWidth (s0 ! m) =
      defaultRowWidth (s0 ! m) + (if 0 < r \<and> m = 0 then w else 0) - (if 0 < r \<and> m = r then w else 0)"
      by (auto simp: s0_def)
  qed
  have J3: "\<forall>m<length s0. 0 \<le> defaultRowWidth (s0 ! m)"
    using nn len by (simp add: s0_def)
  have r0: "r < length s0" using r len by simp
  from uniform_reflow [OF w r0 le0 J1 J2 J3]
  have rf: "reflow 0 s0 = Normal (fold shedLast [0..<r] s0)"
    and fin: "\<forall>m<length s0. rowWidth (fold shedLast [0..<r] s0 ! m)
                          = defaultRowWidth (fold shedLast [0..<r] s0 ! m)"
    by simp_all
  from rf sortKeys_part000_present [OF pos] sortKeys_autosort_present [OF pos]
  show "sortKeys_part000 key kb = sortKeys_autosort key kb"
    by (simp add: s0_def shedRowsAbove_def)
  from rf sortKeys_part000_present [OF pos]
  have st: "stateOf (sortKeys_part000 key kb) = fold shedLast [0..<r] s0"
    by (simp add: s0_def)
  show "\<forall>row \<in> set (stateOf (sortKeys_part000 key kb)). defaultRowWidth row = rowWidth row"
    unfolding st using fin by (auto simp: in_set_conv_nth)
qed

text \<open>
  C9: on every layout of the second file's rows in which all keys have one positive
  width \<open>w\<close> and every row is as wide as its default width, a press of a key of the
  layout gives the same completion under both reflows: \<^verbatim>\<open>sortKeys\<close> of the second file
  (width budget) and \<^verbatim>\<open>sortKeys\<close> of \<^verbatim>\<open>autosort.js\<close> (row count) return the same rows.
  The rows returned satisfy the same two conditions again, so the agreement holds for
  every press in a sequence.
\<close>

theorem equal_widths_policies_agree:
  "0 < w \<and> (\<forall>k \<in> set (allKeys kb). width k = w) \<and>
   (\<forall>r \<in> set kb. defaultRowWidth r = rowWidth r) \<and> key \<in> set (allKeys kb) \<longrightarrow>
     sortKeys_part000 key kb = sortKeys_autosort key kb \<and>
     (\<exists>kb'. sortKeys_part000 key kb = Normal kb') \<and>
     (\<forall>k \<in> set (allKeys (stateOf (sortKeys_part000 key kb))). width k = w) \<and>
     (\<forall>r \<in> set (stateOf (sortKeys_part000 key kb)). defaultRowWidth r = rowWidth r)"
proof
  assume a: "0 < w \<and> (\<forall>k \<in> set (allKeys kb). width k = w) \<and>
   (\<forall>r \<in> set kb. defaultRowWidth r = rowWidth r) \<and> key \<in> set (allKeys kb)"
  then obtain p where "getKeyPos key kb = Some p"
    using getKeyPos_None_iff [of key kb] by auto
  then obtain r c where pos: "getKeyPos key kb = Some (r, c)" by (cases p) auto
  from a have w: "0 < w" and widths: "\<forall>k \<in> set (allKeys kb). width k = w"
    and budget: "\<forall>r \<in> set kb. defaultRowWidth r = rowWidth r" by simp_all
  note agree = uniform_policies_agree [OF w widths budget pos]
  have "set (allKeys (stateOf (sortKeys_part000 key kb))) = set (allKeys kb)"
    using sortKeys_part000_mset [of key kb] by (rule mset_eq_setD)
  with widths have "\<forall>k \<in> set (allKeys (stateOf (sortKeys_part000 key kb))). width k = w"
    by simp
  moreover have "\<exists>kb'. sortKeys_part000 key kb = Normal kb'"
    using agree(1) sortKeys_autosort_present [OF pos] by simp
  ultimately show "sortKeys_part000 key kb = sortKeys_autosort key kb \<and>
     (\<exists>kb'. sortKeys_part000 key kb = Normal kb') \<and>
     (\<forall>k \<in> set (allKeys (stateOf (sortKeys_part000 key kb))). width k = w) \<and>
     (\<forall>r \<in> set (stateOf (sortKeys_part000 key kb)). defaultRowWidth r = rowWidth r)"
    using agree by simp
qed

theorem equal_widths_policies_agree_witness:
  "newKey 25 ''m'' None \<in> set (allKeys uniformKeyboard) \<and>
   getKeyPos (newKey 25 ''m'' None) uniformKeyboard = Some (2, 6) \<and>
   sortKeys_part000 (newKey 25 ''m'' None) uniformKeyboard
     = sortKeys_autosort (newKey 25 ''m'' None) uniformKeyboard \<and>
   (\<exists>kb'. sortKeys_part000 (newKey 25 ''m'' None) uniformKeyboard = Normal kb')"
proof -
  have a: "(0::int) < 50" by simp
  have b: "\<forall>k \<in> set (allKeys uniformKeyboard). width k = 50"
    by code_simp
  have c: "\<forall>r \<in> set uniformKeyboard. defaultRowWidth r = rowWidth r"
    by code_simp
  have d: "newKey 25 ''m'' None \<in> set (allKeys uniformKeyboard)"
    by code_simp
  have e: "getKeyPos (newKey 25 ''m'' None) uniformKeyboard = Some (2, 6)"
    by code_simp
  from a b c d equal_widths_policies_agree [of 50 uniformKeyboard "newKey 25 ''m'' None"]
  have "sortKeys_part000 (newKey 25 ''m'' None) uniformKeyboard
     = sortKeys_autosort (newKey 25 ''m'' None) uniformKeyboard"
    and "\<exists>kb'. sortKeys_part000 (newKey 25 ''m'' None) uniformKeyboard = Normal kb'"
    by blast+
  with d e show ?thesis by blast
qed

text \<open>With keys of different widths the two reflows differ, on the four-row keyboard already.\<close>

lemma policies_differ_on_Keyboard_part000: "sortKeys_part000 (newKey 25 ''m'' None) Keyboard_part000
         \<noteq> sortKeys_autosort (newKey 25 ''m'' None) Keyboard_part000"
  by code_simp

end
